theory Spec2Isabelle
  imports Complex_Main
begin

section \<open>Python values used by the invoice generator\<close>

text \<open>
  The program is a single Python module. Its integers are Python's unbounded integers
  (\<open>int\<close>); every exception the modelled code can raise is a value of \<open>py_error\<close>,
  and a computation that may raise returns \<open>py_error + 'a\<close> with \<open>Inl\<close> for the raise.
\<close>

datatype py_error = ValueError | IndexError | ZeroDivisionError | OverflowError

subsection \<open>Text\<close>

text \<open>
  A Python \<open>str\<close> is modelled as a \<open>string\<close> whose characters are the code points
  U+0000 to U+00FF. On this range the character classes of \<open>str.strip\<close>,
  \<open>str.isdigit\<close> and \<open>int\<close> are the following: white space is U+0009..U+000D,
  U+001C..U+0020, U+0085 and U+00A0; the decimal characters are \<open>0\<close>..\<open>9\<close>; the
  digit characters are the decimal ones and the superscripts U+00B2, U+00B3, U+00B9.
\<close>

definition isspace :: "char \<Rightarrow> bool" where
  "isspace c =
     (let n = (of_char c :: nat)
      in (9 \<le> n \<and> n \<le> 13) \<or> (28 \<le> n \<and> n \<le> 32) \<or> n = 133 \<or> n = 160)"

definition isdecimal :: "char \<Rightarrow> bool" where
  "isdecimal c = (let n = (of_char c :: nat) in 48 \<le> n \<and> n \<le> 57)"

definition isdigit :: "char \<Rightarrow> bool" where
  "isdigit c =
     (let n = (of_char c :: nat) in isdecimal c \<or> n = 178 \<or> n = 179 \<or> n = 185)"

text \<open>\<open>s.isdigit()\<close>: every character is a digit and there is at least one.\<close>

definition str_isdigit :: "string \<Rightarrow> bool" where
  "str_isdigit s = (s \<noteq> [] \<and> list_all isdigit s)"

text \<open>\<open>s.replace(",", "")\<close> deletes every comma.\<close>

definition replace_commas :: "string \<Rightarrow> string" where
  "replace_commas s = filter (\<lambda>c. c \<noteq> CHR '','') s"

text \<open>\<open>s.strip()\<close> removes the white space at both ends.\<close>

definition strip :: "string \<Rightarrow> string" where
  "strip s = rev (dropWhile isspace (rev (dropWhile isspace s)))"

definition digit_value :: "char \<Rightarrow> int" where
  "digit_value c = int (of_char c) - 48"

text \<open>
  \<open>int(s)\<close> for a text without sign, underscore or surrounding white space, which is
  all that reaches it behind the \<open>isdigit\<close> test: the value in base 10 when every
  character is decimal, \<open>ValueError\<close> otherwise (a superscript digit is no decimal
  character). CPython's configurable limit on the number of digits is not modelled.
\<close>

definition py_int :: "string \<Rightarrow> py_error + int" where
  "py_int s =
     (if s \<noteq> [] \<and> list_all isdecimal s
      then Inr (foldl (\<lambda>acc c. 10 * acc + digit_value c) 0 s)
      else Inl ValueError)"

text \<open>
  \<open>xs[i]\<close> on a list: a negative index counts from the end, an index outside the list
  raises \<open>IndexError\<close>.
\<close>

definition list_getitem :: "'a list \<Rightarrow> int \<Rightarrow> py_error + 'a" where
  "list_getitem xs i =
     (if 0 \<le> i \<and> i < int (length xs) then Inr (xs ! nat i)
      else if i < 0 \<and> - int (length xs) \<le> i then Inr (xs ! nat (int (length xs) + i))
      else Inl IndexError)"

subsection \<open>Formatting integers\<close>

definition digit_char :: "nat \<Rightarrow> char" where
  "digit_char d = ''0123456789'' ! d"

fun digits :: "nat \<Rightarrow> string" where
  "digits n = (if n < 10 then [digit_char n] else digits (n div 10) @ [digit_char (n mod 10)])"

declare digits.simps [simp del]

text \<open>\<open>f"{n}"\<close>: the decimal numeral of \<open>n\<close>, with a minus sign when negative.\<close>

definition format_d :: "int \<Rightarrow> string" where
  "format_d n = (if n < 0 then CHR ''-'' # digits (nat (- n)) else digits (nat n))"

text \<open>The \<open>,\<close> option of the format language: a comma before every group of three digits.\<close>

fun comma_group :: "string \<Rightarrow> string" where
  "comma_group s =
     (if length s \<le> 3 then s
      else comma_group (take (length s - 3) s) @ CHR '','' # drop (length s - 3) s)"

declare comma_group.simps [simp del]

text \<open>\<open>f"{n:,d}"\<close>.\<close>

definition format_comma_d :: "int \<Rightarrow> string" where
  "format_comma_d n =
     (if n < 0 then CHR ''-'' # comma_group (digits (nat (- n)))
      else comma_group (digits (nat n)))"

subsection \<open>Floating point\<close>

text \<open>
  A Python \<open>float\<close> is an IEEE 754 binary64 number. A finite one is kept as an integer
  significand and an exponent, \<open>Finite m q\<close> standing for \<open>m * 2 ^ q\<close>; the sign of a
  zero and of an infinity is not kept, since \<open>round\<close> does not look at it.
\<close>

datatype pyfloat = Finite int int | Infinite | NaN

text \<open>The number of binary digits of a positive integer.\<close>

function bit_length :: "int \<Rightarrow> nat" where
  "bit_length n = (if n \<le> 0 then 0 else Suc (bit_length (n div 2)))"
  by pat_completeness auto
termination
  by (relation "measure nat") auto

declare bit_length.simps [simp del]

text \<open>\<open>n / d\<close> for \<open>0 < d\<close>, rounded to the nearest integer, a tie going to the even one.\<close>

definition round_half_even_div :: "int \<Rightarrow> int \<Rightarrow> int" where
  "round_half_even_div n d =
     (let f = n div d; r = n mod d
      in if 2 * r < d then f
         else if d < 2 * r then f + 1
         else if even f then f else f + 1)"

text \<open>The exponent \<open>e\<close> with \<open>2 ^ e \<le> a / b < 2 ^ (e + 1)\<close>, for \<open>0 < a\<close> and \<open>0 < b\<close>.\<close>

definition floor_log2 :: "int \<Rightarrow> int \<Rightarrow> int" where
  "floor_log2 a b =
     (let d = int (bit_length a) - int (bit_length b)
      in if (if 0 \<le> d then b * 2 ^ nat d \<le> a else b \<le> a * 2 ^ nat (- d)) then d else d - 1)"

text \<open>
  The binary64 number nearest to the fraction \<open>a / b\<close> (\<open>0 < b\<close>), ties to the even
  significand: 53 bits of significand, the exponent of the last bit no smaller than
  \<open>-1074\<close> (where the subnormal numbers are), and infinity from \<open>2 ^ 1024\<close> on.
\<close>

definition round_to_float :: "int \<Rightarrow> int \<Rightarrow> pyfloat" where
  "round_to_float a b =
     (if a = 0 then Finite 0 0
      else
        let e = floor_log2 \<bar>a\<bar> b;
            q = max (e - 52) (- 1074);
            m = (if 0 \<le> q then round_half_even_div a (b * 2 ^ nat q)
                 else round_half_even_div (a * 2 ^ nat (- q)) b)
        in if 0 \<le> q \<and> 2 ^ 1024 \<le> \<bar>m\<bar> * 2 ^ nat q then Infinite else Finite m q)"

text \<open>
  \<open>a / b\<close> on two integers: the correctly rounded quotient; \<open>ZeroDivisionError\<close> for a
  zero divisor, \<open>OverflowError\<close> when the quotient is too large for a float.
\<close>

definition true_div :: "int \<Rightarrow> int \<Rightarrow> py_error + pyfloat" where
  "true_div a b =
     (if b = 0 then Inl ZeroDivisionError
      else case (if 0 < b then round_to_float a b else round_to_float (- a) (- b)) of
             Finite m q \<Rightarrow> Inr (Finite m q)
           | _ \<Rightarrow> Inl OverflowError)"

text \<open>The conversion of an integer operand of a float operation.\<close>

definition float_of_int :: "int \<Rightarrow> py_error + pyfloat" where
  "float_of_int n =
     (case round_to_float n 1 of Finite m q \<Rightarrow> Inr (Finite m q) | _ \<Rightarrow> Inl OverflowError)"

text \<open>\<open>x * y\<close> on two floats: the rounded product, which overflows to infinity silently.\<close>

fun float_mul :: "pyfloat \<Rightarrow> pyfloat \<Rightarrow> pyfloat" where
  "float_mul (Finite m1 q1) (Finite m2 q2) =
     (if 0 \<le> q1 + q2 then round_to_float (m1 * m2 * 2 ^ nat (q1 + q2)) 1
      else round_to_float (m1 * m2) (2 ^ nat (- (q1 + q2))))"
| "float_mul NaN _ = NaN"
| "float_mul _ NaN = NaN"
| "float_mul Infinite (Finite m q) = (if m = 0 then NaN else Infinite)"
| "float_mul (Finite m q) Infinite = (if m = 0 then NaN else Infinite)"
| "float_mul Infinite Infinite = Infinite"

text \<open>\<open>x * n\<close> with a float on the left and an integer on the right.\<close>

definition float_mul_int :: "pyfloat \<Rightarrow> int \<Rightarrow> py_error + pyfloat" where
  "float_mul_int x n = (case float_of_int n of Inl e \<Rightarrow> Inl e | Inr y \<Rightarrow> Inr (float_mul x y))"

text \<open>
  \<open>round(x)\<close> on a float: the nearest integer, a tie going to the even one; it raises on
  an infinity and on a NaN.
\<close>

fun py_round :: "pyfloat \<Rightarrow> py_error + int" where
  "py_round (Finite m q) =
     Inr (if 0 \<le> q then m * 2 ^ nat q else round_half_even_div m (2 ^ nat (- q)))"
| "py_round Infinite = Inl OverflowError"
| "py_round NaN = Inl ValueError"

subsection \<open>Utility functions\<close>

definition parse_int_with_commas :: "string \<Rightarrow> py_error + int" where
  "parse_int_with_commas text =
     (let text = strip (replace_commas text)
      in if str_isdigit text then py_int text else Inr 0)"

definition ordinals :: "string list" where
  "ordinals = [''first'', ''second'', ''third'', ''fourth'', ''fifth'',
               ''sixth'', ''seventh'', ''eighth'', ''ninth'', ''tenth'']"

definition ordinal :: "int \<Rightarrow> py_error + string" where
  "ordinal n =
     (if n < int (length ordinals) then list_getitem ordinals n
      else Inr (format_d (n + 1) @ ''th''))"

section \<open>Invoice data\<close>

text \<open>
  The dictionaries of the program have fixed keys and are records here; the key
  \<open>description\<close> of a payment is the field \<open>pay_description\<close>.
\<close>

record line_item =
  description :: string
  price :: int
  paid :: int

record payment =
  name :: string
  date :: string
  percentage :: int
  amount :: int
  pay_description :: string

record invoice_data =
  invoice_number :: string
  invoice_date :: string
  client_name :: string
  country :: string
  phone :: string
  items :: "line_item list"
  vat :: int
  payments :: "payment list"

section \<open>The PDF library and the page\<close>

text \<open>
  The document under construction is the sequence of the content-bearing calls made on
  the \<open>FPDF\<close> object (\<open>cell\<close>, \<open>multi_cell\<close>, \<open>write\<close>, \<open>image\<close>, \<open>line\<close>) with the
  text they draw; the calls that move the cursor or select a font are not recorded.
  The bytes that \<open>output\<close> makes of it are the library's business.
\<close>

datatype draw = Cell string | Multi_cell string | Write string | Image string | Rule

text \<open>
  What the files on disk do to the library: \<open>add_font\<close> on each font file either
  succeeds (\<open>None\<close>) or raises with a message; the logo file is missing, or present
  but rejected by \<open>image\<close> with a message, or usable.
\<close>

datatype logo_state = Logo_missing | Logo_unreadable string | Logo_ok

record assets =
  regular_font :: "string option"
  bold_font :: "string option"
  logo :: logo_state

datatype exc = Raised py_error | Library_error string

text \<open>
  What the page shows: \<open>st.warning(text)\<close>, \<open>st.error(text)\<close>, and
  \<open>st.error(f"<text>: {e}")\<close> for a caught exception \<open>e\<close>.
\<close>

datatype diagnostic = St_warning string | St_error string | St_error_exc string exc

definition FONT_BOOKMAN_REGULAR :: string where
  "FONT_BOOKMAN_REGULAR = ''BOOKOS.TTF''"

definition FONT_BOOKMAN_BOLD :: string where
  "FONT_BOOKMAN_BOLD = ''BOOKOSB.TTF''"

definition LOGO_PATH :: string where
  "LOGO_PATH = ''ashi_logo.jpg''"

text \<open>
  The euro sign U+20AC and the bullet U+2022 lie outside the character range of the
  model; each is kept as the three bytes of its UTF-8 encoding.
\<close>

definition CURRENCY_SYMBOL :: string where
  "CURRENCY_SYMBOL = [CHR 0xE2, CHR 0x82, CHR 0xAC]"

definition BULLET :: string where
  "BULLET = [CHR 0xE2, CHR 0x80, CHR 0xA2]"

definition NL :: string where
  "NL = [CHR 0x0A]"

subsection \<open>PDF initialization\<close>

text \<open>
  \<open>init_pdf\<close> returns the fresh, empty document, or \<open>None\<close> and the error it showed
  when a font fails to load. The lines it writes to the page about the font paths
  (\<open>st.write\<close>) are no diagnostics and are not recorded.
\<close>

definition init_pdf :: "assets \<Rightarrow> draw list option \<times> diagnostic list" where
  "init_pdf a =
     (case regular_font a of
        Some msg \<Rightarrow> (None, [St_error_exc ''PDF initialization failed'' (Library_error msg)])
      | None \<Rightarrow>
          (case bold_font a of
             Some msg \<Rightarrow> (None, [St_error_exc ''PDF initialization failed'' (Library_error msg)])
           | None \<Rightarrow> (Some [], [])))"

section \<open>PDF generation\<close>

subsection \<open>Header\<close>

definition header :: "invoice_data \<Rightarrow> draw list" where
  "header d =
     [Cell ''ASHI STUDIO SAS'', Cell ''9 AVENUE HOCHE'', Cell ''75008 PARIS, FRANCE'',
      Multi_cell (''Invoice Number: '' @ invoice_number d @ NL @ NL @
                  ''Date: '' @ invoice_date d),
      Cell ''Client Information'',
      Cell (''Name: '' @ client_name d),
      Cell (''Country: '' @ country d),
      Cell (''Phone: '' @ phone d)]"

subsection \<open>Items table\<close>

definition money :: "int \<Rightarrow> string" where
  "money n = format_comma_d n @ '' '' @ CURRENCY_SYMBOL"

text \<open>
  The loop over the items, with the two running sums and the rows drawn so far as its
  state.
\<close>

fun items_loop :: "line_item list \<Rightarrow> int \<times> int \<times> draw list \<Rightarrow> int \<times> int \<times> draw list" where
  "items_loop [] st = st"
| "items_loop (item # rest) (sum_price, sum_paid, out) =
     items_loop rest
       (sum_price + price item, sum_paid + paid item,
        out @ [Cell (description item), Cell (money (price item)), Cell (money (paid item))])"

text \<open>
  The items table: heading, rows, summation row, VAT row and total row. It returns
  \<open>sum_price\<close>, \<open>sum_paid\<close> and \<open>final_total\<close> with what it draws.
\<close>

definition items_table :: "invoice_data \<Rightarrow> (int \<times> int \<times> int) \<times> draw list" where
  "items_table d =
     (let (sum_price, sum_paid, rows) = items_loop (items d) (0, 0, []);
          final_total = sum_paid + vat d
      in ((sum_price, sum_paid, final_total),
          [Cell ''DESCRIPTION'', Cell ''TOTAL PRICE'', Cell ''TO BE PAID''] @ rows @
          [Cell [], Cell (money sum_price), Cell (money sum_paid),
           Cell [], Cell [], Cell ''VAT'', Cell (format_comma_d (vat d)),
           Cell [], Cell [], Cell ''Total'', Cell (money final_total)]))"

subsection \<open>Payment schedule\<close>

text \<open>\<open>int(round(amt / sum_price_local * 100))\<close>\<close>

definition derive_percentage :: "int \<Rightarrow> int \<Rightarrow> py_error + int" where
  "derive_percentage amt sum_price_local =
     (case true_div amt sum_price_local of
        Inl e \<Rightarrow> Inl e
      | Inr x \<Rightarrow> (case float_mul_int x 100 of Inl e \<Rightarrow> Inl e | Inr y \<Rightarrow> py_round y))"

text \<open>\<open>int(round(perc / 100 * sum_price_local))\<close>\<close>

definition derive_amount :: "int \<Rightarrow> int \<Rightarrow> py_error + int" where
  "derive_amount perc sum_price_local =
     (case true_div perc 100 of
        Inl e \<Rightarrow> Inl e
      | Inr x \<Rightarrow> (case float_mul_int x sum_price_local of Inl e \<Rightarrow> Inl e | Inr y \<Rightarrow> py_round y))"

text \<open>The values of \<open>perc\<close> and \<open>amt\<close> after the \<open>if\<close>/\<open>elif\<close> of the loop body.\<close>

definition derive :: "int \<Rightarrow> int \<Rightarrow> int \<Rightarrow> py_error + int \<times> int" where
  "derive perc amt sum_price_local =
     (if perc = 0 \<and> amt \<noteq> 0 then
        (case derive_percentage amt sum_price_local of
           Inl e \<Rightarrow> Inl e | Inr perc' \<Rightarrow> Inr (perc', amt))
      else if amt = 0 \<and> perc \<noteq> 0 then
        (case derive_amount perc sum_price_local of
           Inl e \<Rightarrow> Inl e | Inr amt' \<Rightarrow> Inr (perc, amt'))
      else Inr (perc, amt))"

definition payment_row :: "payment \<Rightarrow> int \<Rightarrow> int \<Rightarrow> draw list" where
  "payment_row pay perc amt =
     [Cell (if name pay \<noteq> [] then name pay else ''N/A''),
      Cell (date pay),
      Cell (format_comma_d perc @ ''%''),
      Cell (money amt)]"

text \<open>
  The loop over the payments. It returns the list of payments as the loop leaves it,
  the rows drawn, and the exception that ended it, if any: an entry is written back
  once its row is drawn, so the entries before a raise are updated and the others are
  as they were.
\<close>

fun payment_loop :: "int \<Rightarrow> payment list \<Rightarrow> payment list \<times> draw list \<times> py_error option" where
  "payment_loop sum_price_local [] = ([], [], None)"
| "payment_loop sum_price_local (pay # rest) =
     (case derive (percentage pay) (amount pay) sum_price_local of
        Inl e \<Rightarrow> (pay # rest, [], Some e)
      | Inr (perc, amt) \<Rightarrow>
          (let (rest', out, err) = payment_loop sum_price_local rest
           in (pay\<lparr>percentage := perc, amount := amt\<rparr> # rest',
               payment_row pay perc amt @ out, err)))"

definition payment_heading :: "draw list" where
  "payment_heading = [Cell ''PAYMENT'', Cell ''DATE'', Cell ''PERCENTAGE'', Cell ''AMOUNT'']"

subsection \<open>Bank details\<close>

definition print_bank_column :: "(string \<times> string) list \<Rightarrow> draw list" where
  "print_bank_column data =
     concat (map (\<lambda>(title, detail). [Multi_cell title, Multi_cell detail]) data)"

definition example_bank_details_4columns :: "draw list" where
  "example_bank_details_4columns =
     [Cell ''Bank Transfer Details:''] @
     print_bank_column
       [(''BENEFICIARY:'',
         ''ASHI STUDIO SAS'' @ NL @ ''9 AVENUE HOCHE'' @ NL @ ''75008 PARIS, FRANCE''),
        (''REGISTRATION number:'', ''922 266 788 00012''),
        (''VAT:'', ''FR21922266788'')] @
     print_bank_column
       [(''BANK NAME:'', ''BNP PARIBAS''),
        (''AGENCY ADDRESS:'', ''Agency Paris Turenne''),
        (''AGENCY CODE:'', ''00823'')] @
     print_bank_column
       [(''ACCOUNT CURRENCY:'', ''EUR (Euro)''),
        (''IBAN:'', ''FR76 3000 4008 2300 0108 9656 803''),
        (''RIB:'', ''03'')] @
     print_bank_column
       [(''SWIFT:'', ''BNPAFRPPXXX''),
        (''ACCOUNT N'' @ [CHR 0xB0] @ '':'', ''00010896568''),
        (''BANK CODE:'', ''30004'')] @
     [Rule]"

subsection \<open>Terms and conditions\<close>

text \<open>The sentence of one payment; \<open>w\<close> is its ordinal word.\<close>

definition term_line :: "string \<Rightarrow> payment \<Rightarrow> draw list" where
  "term_line w pay =
     [Write (BULLET @ '' A '' @ w @ '' payment of ''),
      Write (format_d (percentage pay) @ ''%''),
      Write '' of the total price is required''] @
     (if name pay \<noteq> [] then [Write ('' as '' @ name pay)] else []) @
     (if pay_description pay \<noteq> [] then [Write ('' ('' @ pay_description pay @ '')'')]
      else []) @
     [Write NL]"

fun terms_loop :: "int \<Rightarrow> payment list \<Rightarrow> py_error + draw list" where
  "terms_loop i [] = Inr []"
| "terms_loop i (pay # rest) =
     (case ordinal i of
        Inl e \<Rightarrow> Inl e
      | Inr w \<Rightarrow>
          (case terms_loop (i + 1) rest of
             Inl e \<Rightarrow> Inl e
           | Inr out \<Rightarrow> Inr (term_line w pay @ out)))"

definition standard_terms :: "string list" where
  "standard_terms =
     [BULLET @ '' As per the company policy, once a dress is purchased, it is not subject to return or refund'',
      BULLET @ '' Once the purchase details and samples are approved by the client, the dress is not subject to any changes'',
      BULLET @ '' The delivery date is scheduled as per the agreement with the sales team upon order confirmation; in case of any date change or event cancellation, Ashi Studio will be working according to the initial date provided'',
      BULLET @ '' Any addition to the dress, requested by the client, will be charged separately'',
      BULLET @ '' After doing the final fitting and dress adjustments, once the dress is received, any changes requested are not covered by Ashi Studio and are subject to additional payments'',
      BULLET @ '' Fittings and delivery will be in the client country of origin or in AshI STUDIO showroom in Paris; any changes in the destination will be at the cost of the client'']"

definition closing :: "draw list" where
  "closing =
     map (\<lambda>term. Write (term @ NL)) standard_terms @
     [Rule, Cell ''THANK YOU FOR CHOOSING ASHI STUDIO'', Cell ''WWW.ASHISTUDIO.COM'']"

subsection \<open>The composer\<close>

text \<open>
  The result of one call: the document returned (\<open>None\<close> for Python's \<open>None\<close>), what
  the page was shown, and the caller's \<open>invoice_data\<close> as the call leaves it.
\<close>

record outcome =
  document :: "draw list option"
  diagnostics :: "diagnostic list"
  data_after :: invoice_data

text \<open>The logo: drawn when the file exists, a warning when it does not.\<close>

definition draw_logo :: "assets \<Rightarrow> exc + draw list \<times> diagnostic list" where
  "draw_logo a =
     (case logo a of
        Logo_ok \<Rightarrow> Inr ([Image LOGO_PATH], [])
      | Logo_missing \<Rightarrow> Inr ([], [St_warning (''Logo file not found: '' @ LOGO_PATH)])
      | Logo_unreadable msg \<Rightarrow> Inl (Library_error msg))"

text \<open>
  The body of the \<open>try\<close>: what it showed, the \<open>invoice_data\<close> it leaves, and either the
  exception that left it or the calls drawn.
\<close>

definition compose :: "assets \<Rightarrow> invoice_data \<Rightarrow> diagnostic list \<times> invoice_data \<times> (exc + draw list)" where
  "compose a invoice_data =
     (case draw_logo a of
        Inl e \<Rightarrow> ([], invoice_data, Inl e)
      | Inr (img, warn) \<Rightarrow>
          (let head = header invoice_data;
               ((sum_price, sum_paid, final_total), table) = items_table invoice_data;
               sum_price_local = sum_price;
               (pays, rows, err) = payment_loop sum_price_local (payments invoice_data);
               invoice_data = invoice_data\<lparr>payments := pays\<rparr>
           in case err of
                Some e \<Rightarrow> (warn, invoice_data, Inl (Raised e))
              | None \<Rightarrow>
                  (case terms_loop 0 (payments invoice_data) of
                     Inl e \<Rightarrow> (warn, invoice_data, Inl (Raised e))
                   | Inr terms \<Rightarrow>
                       (warn, invoice_data,
                        Inr (img @ head @ table @ payment_heading @ rows @
                             [Rule] @ example_bank_details_4columns @
                             [Cell ''Terms & Conditions''] @ terms @ closing)))))"

definition create_invoice_pdf :: "assets \<Rightarrow> invoice_data \<Rightarrow> outcome" where
  "create_invoice_pdf a invoice_data =
     (case init_pdf a of
        (None, msgs) \<Rightarrow> \<lparr>document = None, diagnostics = msgs, data_after = invoice_data\<rparr>
      | (Some pdf, msgs) \<Rightarrow>
          (case compose a invoice_data of
             (warn, invoice_data, Inl e) \<Rightarrow>
               \<lparr>document = None,
                diagnostics = msgs @ warn @ [St_error_exc ''Failed to generate PDF'' e],
                data_after = invoice_data\<rparr>
           | (warn, invoice_data, Inr body) \<Rightarrow>
               \<lparr>document = Some (pdf @ body),
                diagnostics = msgs @ warn,
                data_after = invoice_data\<rparr>))"

section \<open>The Generate Invoice button\<close>

definition validation_errors :: "payment list \<Rightarrow> int \<Rightarrow> string list" where
  "validation_errors pays sum_price =
     (let total_percent = sum_list (map percentage pays);
          total_amount = sum_list (map amount pays)
      in (if \<not> (total_percent = 100 \<or> total_amount = sum_price)
          then [''Either sum of payment percentages must be 100%, or sum of payment amounts must equal total price ('' @
                money sum_price @ '').'']
          else []) @
         (if list_ex (\<lambda>p. percentage p = 0 \<and> amount p = 0) pays
          then [''Each payment must have a non-zero percentage or a non-zero amount.'']
          else []))"

text \<open>
  What a click leaves behind: the messages shown, the call of the composer if one was
  made, and \<open>st.session_state.pdf_data\<close>.
\<close>

record click =
  shown :: "diagnostic list"
  composer_call :: "outcome option"
  pdf_data :: "(draw list \<times> string) option"

text \<open>
  The handler of the button. The form values it reads (the parsed items and payments,
  the VAT and the text fields) are the fields of \<open>form\<close>; \<open>sum_price\<close> is the sum the
  page computed from the items before the button.
\<close>

definition generate_invoice :: "assets \<Rightarrow> invoice_data \<Rightarrow> click" where
  "generate_invoice a form =
     (let sum_price = sum_list (map price (items form));
          errs = validation_errors (payments form) sum_price
      in if errs \<noteq> [] then
           \<lparr>shown = map St_error errs, composer_call = None, pdf_data = None\<rparr>
         else
           (let r = create_invoice_pdf a form
            in \<lparr>shown = diagnostics r,
                composer_call = Some r,
                pdf_data = (case document r of
                              None \<Rightarrow> None
                            | Some pdf_bytes \<Rightarrow>
                                if pdf_bytes \<noteq> [] then Some (pdf_bytes, invoice_number form)
                                else None)\<rparr>))"

section \<open>Vocabulary of the properties\<close>

text \<open>
  \<open>derived b e e'\<close>: the entry \<open>e'\<close> is the entry \<open>e\<close> with the percentage and the amount
  that the loop body computes from those of \<open>e\<close> and the base price \<open>b\<close>, and with
  nothing else changed.
\<close>

definition derived :: "int \<Rightarrow> payment \<Rightarrow> payment \<Rightarrow> bool" where
  "derived b e e' =
     (derive (percentage e) (amount e) b = Inr (percentage e', amount e') \<and>
      e' = e\<lparr>percentage := percentage e', amount := amount e'\<rparr>)"

text \<open>The word \<open>ordinal\<close> returns, the empty text standing for a raise.\<close>

definition ordinal_word :: "int \<Rightarrow> string" where
  "ordinal_word i = (case ordinal i of Inl e \<Rightarrow> [] | Inr w \<Rightarrow> w)"


section \<open>Sample inputs\<close>

text \<open>All assets in place, and the same with the logo file absent.\<close>

definition assets_ok :: assets where
  "assets_ok = \<lparr>regular_font = None, bold_font = None, logo = Logo_ok\<rparr>"

definition assets_no_logo :: assets where
  "assets_no_logo = \<lparr>regular_font = None, bold_font = None, logo = Logo_missing\<rparr>"

definition two_items_list :: "line_item list" where
  "two_items_list = [\<lparr>description = ''Item 1'', price = 1000, paid = 500\<rparr>,
                     \<lparr>description = ''Item 2'', price = 2000, paid = 1000\<rparr>]"

text \<open>
  An invoice of two items with three payments: one resolved, one given by its amount
  and one by its percentage.
\<close>

definition mixed_payments :: "payment list" where
  "mixed_payments =
     [\<lparr>name = ''down payment'', date = ''04-11-2026'', percentage = 50, amount = 1500,
       pay_description = []\<rparr>,
      \<lparr>name = ''fitting payment'', date = [], percentage = 0, amount = 900,
       pay_description = ''at the fitting''\<rparr>,
      \<lparr>name = [], date = [], percentage = 20, amount = 0, pay_description = []\<rparr>]"

definition two_items :: invoice_data where
  "two_items =
     \<lparr>invoice_number = ''369/2025'', invoice_date = ''04/11/2026'',
      client_name = ''Client'', country = ''Kuwait'', phone = ''+965 1234 5678'',
      items = two_items_list, vat = 150, payments = mixed_payments\<rparr>"

text \<open>The same invoice with the payments of the form's defaults, 50, 30 and 20 percent.\<close>

definition three_payments :: invoice_data where
  "three_payments =
     two_items\<lparr>payments :=
       [\<lparr>name = ''down payment'', date = ''04-11-2026'', percentage = 50, amount = 0,
         pay_description = []\<rparr>,
        \<lparr>name = ''fitting payment'', date = [], percentage = 30, amount = 0,
         pay_description = []\<rparr>,
        \<lparr>name = ''closing payment'', date = [], percentage = 20, amount = 0,
         pay_description = []\<rparr>]\<rparr>"

text \<open>Payments of 50 and 40 percent with no amounts: 90 percent in all.\<close>

definition ninety_percent :: invoice_data where
  "ninety_percent =
     two_items\<lparr>payments :=
       [\<lparr>name = ''down payment'', date = ''04-11-2026'', percentage = 50, amount = 0,
         pay_description = []\<rparr>,
        \<lparr>name = ''closing payment'', date = [], percentage = 40, amount = 0,
         pay_description = []\<rparr>]\<rparr>"

text \<open>
  No priced item, one payment of 100 percent and one given by an amount: the
  percentages sum to 100 and every payment has a non-zero field.
\<close>

definition zero_price :: invoice_data where
  "zero_price =
     two_items\<lparr>items := [\<lparr>description = ''Item 1'', price = 0, paid = 0\<rparr>],
       payments :=
       [\<lparr>name = ''full payment'', date = [], percentage = 100, amount = 0,
         pay_description = []\<rparr>,
        \<lparr>name = ''closing payment'', date = [], percentage = 0, amount = 5,
         pay_description = []\<rparr>]\<rparr>"

section \<open>Properties\<close>

lemmas text_defs = strip_def replace_commas_def str_isdigit_def isdigit_def isdecimal_def
  isspace_def py_int_def digit_value_def

subsection \<open>The numeric parser\<close>

text \<open>
  C5. The parser reads \<open>12,300\<close> as 12300, the empty text and \<open>abc\<close> as 0, and
  \<open>1,2,3\<close> as 123: commas are deleted wherever they stand and the digits that remain
  are read as one number.
\<close>

theorem parse_examples:
  "parse_int_with_commas ''12,300'' = Inr 12300 \<and>
   parse_int_with_commas [] = Inr 0 \<and>
   parse_int_with_commas ''abc'' = Inr 0 \<and>
   parse_int_with_commas ''1,2,3'' = Inr 123"
  by (simp add: parse_int_with_commas_def text_defs)

text \<open>
  C4. The parser is meant never to raise. On the one-character text made of the
  superscript two, U+00B2, it does: \<open>isdigit\<close> accepts the character, \<open>int\<close> does not,
  and the \<open>ValueError\<close> of \<open>int\<close> leaves the function.
\<close>

theorem parse_superscript_raises:
  "parse_int_with_commas [CHR 0xB2] = Inl ValueError"
  by (simp add: parse_int_with_commas_def text_defs)

text \<open>
  The raise needs a superscript digit: on a text of ASCII characters the parser
  returns, and what it returns is not negative.
\<close>

lemma decimal_value_nonneg:
  "list_all isdecimal s \<Longrightarrow> 0 \<le> acc \<Longrightarrow>
   0 \<le> foldl (\<lambda>acc c. 10 * acc + digit_value c) acc s"
proof (induction s arbitrary: acc)
  case Nil
  then show ?case by simp
next
  case (Cons c s)
  from Cons.prems have "0 \<le> digit_value c"
    by (simp add: isdecimal_def digit_value_def Let_def)
  with Cons.prems have "0 \<le> 10 * acc + digit_value c" by simp
  with Cons.IH [of "10 * acc + digit_value c"] Cons.prems show ?case by simp
qed

lemma cleaned_subset: "set (strip (replace_commas text)) \<subseteq> set text"
proof -
  have "set (strip s) \<subseteq> set s" for s
    by (auto simp: strip_def dest!: set_dropWhileD)
  then have "set (strip (replace_commas text)) \<subseteq> set (replace_commas text)" .
  also have "\<dots> \<subseteq> set text" by (auto simp: replace_commas_def)
  finally show ?thesis .
qed

lemma parse_int_with_commas_ascii:
  assumes "\<forall>c \<in> set text. (of_char c :: nat) < 128"
  shows "\<exists>n. parse_int_with_commas text = Inr n \<and> 0 \<le> n"
proof -
  define t where "t = strip (replace_commas text)"
  have ascii: "\<forall>c \<in> set t. (of_char c :: nat) < 128"
    using assms cleaned_subset [of "text"] by (auto simp: t_def)
  show ?thesis
  proof (cases "str_isdigit t")
    case True
    then have ne: "t \<noteq> []" and dig: "list_all isdigit t" by (simp_all add: str_isdigit_def)
    have dec: "list_all isdecimal t"
      unfolding list_all_iff
    proof
      fix c assume c: "c \<in> set t"
      with dig have "isdigit c" by (simp add: list_all_iff)
      moreover from c ascii have "(of_char c :: nat) < 128" by simp
      ultimately show "isdecimal c" by (auto simp: isdigit_def Let_def)
    qed
    from decimal_value_nonneg [OF dec, of 0] ne dec True show ?thesis
      by (simp add: parse_int_with_commas_def t_def [symmetric] py_int_def)
  next
    case False
    then show ?thesis by (simp add: parse_int_with_commas_def t_def [symmetric])
  qed
qed

subsection \<open>Decimal numerals\<close>

lemma digit_char_table:
  "list_all (\<lambda>n. isdecimal (digit_char n) \<and> digit_value (digit_char n) = int n \<and>
                  (digit_char n = CHR ''0'') = (n = 0)) [0..<10]"
  by code_simp

lemma digit_char_decimal:
  assumes "n < 10"
  shows "isdecimal (digit_char n)" and "digit_value (digit_char n) = int n"
    and "(digit_char n = CHR ''0'') = (n = 0)"
  using digit_char_table assms by (simp_all add: list_all_iff)

lemma digits_nonempty: "digits n \<noteq> []"
  by (subst digits.simps) simp

lemma digits_decimal: "list_all isdecimal (digits n)"
proof (induction n rule: digits.induct)
  case (1 n)
  show ?case
  proof (cases "n < 10")
    case True
    then show ?thesis by (subst digits.simps) (simp add: digit_char_decimal)
  next
    case False
    then show ?thesis using 1 by (subst digits.simps) (simp add: digit_char_decimal)
  qed
qed

lemma digits_value: "foldl (\<lambda>acc c. 10 * acc + digit_value c) 0 (digits n) = int n"
proof (induction n rule: digits.induct)
  case (1 n)
  show ?case
  proof (cases "n < 10")
    case True
    then show ?thesis by (subst digits.simps) (simp add: digit_char_decimal)
  next
    case False
    then have "foldl (\<lambda>acc c. 10 * acc + digit_value c) 0 (digits (n div 10)) = int (n div 10)"
      using 1 by simp
    with False show ?thesis
      by (subst digits.simps) (simp add: digit_char_decimal zdiv_int zmod_int)
  qed
qed

lemma digits_no_leading_zero: "0 < n \<Longrightarrow> hd (digits n) \<noteq> CHR ''0''"
proof (induction n rule: digits.induct)
  case (1 n)
  show ?case
  proof (cases "n < 10")
    case True
    with 1 show ?thesis by (subst digits.simps) (simp add: digit_char_decimal)
  next
    case False
    then have "0 < n div 10" by simp
    with False 1 have "hd (digits (n div 10)) \<noteq> CHR ''0''" by simp
    with False show ?thesis
      by (subst digits.simps) (simp add: digits_nonempty)
  qed
qed

lemma py_int_digits: "py_int (digits n) = Inr (int n)"
  by (simp add: py_int_def digits_nonempty digits_decimal digits_value)

subsection \<open>Ordinal words\<close>

lemma ordinal_nonneg:
  assumes "0 \<le> n"
  shows "ordinal n = Inr (if n < 10 then ordinals ! nat n else format_d (n + 1) @ ''th'')"
  using assms by (simp add: ordinal_def list_getitem_def ordinals_def)

text \<open>
  C6. For every index \<open>n\<close> from 0 on, \<open>ordinal\<close> returns the English word for \<open>n\<close> up to
  9 (first to tenth) and, from 10 on, the numeral of \<open>n + 1\<close> followed by \<open>th\<close>: the
  text before the suffix has no leading zero and reads back as \<open>n + 1\<close>. So
  \<open>ordinal(0)\<close> is \<open>first\<close>, \<open>ordinal(9)\<close> is \<open>tenth\<close> and \<open>ordinal(10)\<close> is \<open>11th\<close>.
\<close>

theorem ordinal_words:
  assumes "0 \<le> n"
  shows "ordinal n =
           Inr (if n < 10
                then [''first'', ''second'', ''third'', ''fourth'', ''fifth'',
                      ''sixth'', ''seventh'', ''eighth'', ''ninth'', ''tenth''] ! nat n
                else format_d (n + 1) @ ''th'') \<and>
         py_int (format_d (n + 1)) = Inr (n + 1) \<and>
         hd (format_d (n + 1)) \<noteq> CHR ''0'' \<and>
         ordinal 0 = Inr ''first'' \<and> ordinal 9 = Inr ''tenth'' \<and> ordinal 10 = Inr ''11th''"
proof (intro conjI)
  show "ordinal n =
           Inr (if n < 10
                then [''first'', ''second'', ''third'', ''fourth'', ''fifth'',
                      ''sixth'', ''seventh'', ''eighth'', ''ninth'', ''tenth''] ! nat n
                else format_d (n + 1) @ ''th'')"
    using ordinal_nonneg [OF assms] by (simp add: ordinals_def)
  show "py_int (format_d (n + 1)) = Inr (n + 1)"
    using assms by (simp add: format_d_def py_int_digits)
  show "hd (format_d (n + 1)) \<noteq> CHR ''0''"
    using assms by (simp add: format_d_def digits_no_leading_zero)
  show "ordinal 0 = Inr ''first''"
    by (simp add: ordinal_def ordinals_def list_getitem_def)
  show "ordinal 9 = Inr ''tenth''"
    by (simp add: ordinal_def ordinals_def list_getitem_def)
  show "ordinal 10 = Inr ''11th''"
    by (simp add: ordinal_def ordinals_def format_d_def digits.simps digit_char_def)
qed

theorem ordinal_words_witness:
  "(0::int) \<le> 3 \<and> ordinal 3 = Inr ''fourth'' \<and>
   (0::int) \<le> 20 \<and> ordinal 20 = Inr ''21th'' \<and> py_int ''21'' = Inr 21"
  using ordinal_words [of 3] ordinal_words [of 20]
  by (simp add: format_d_def digits.simps digit_char_def)

subsection \<open>Floating point\<close>

lemma bit_length_bounds:
  "0 < n \<Longrightarrow> 2 ^ (bit_length n - 1) \<le> n \<and> n < 2 ^ bit_length n"
proof (induction n rule: bit_length.induct)
  case (1 n)
  show ?case
  proof (cases "n div 2 = 0")
    case True
    with 1(2) have "n = 1" by presburger
    then show ?thesis
      by (simp add: bit_length.simps [of 1] bit_length.simps [of 0])
  next
    case False
    with 1(2) have pos: "0 < n div 2" by presburger
    from 1(1) [OF _ pos] 1(2) have
      lo: "2 ^ (bit_length (n div 2) - 1) \<le> n div 2" and hi: "n div 2 < 2 ^ bit_length (n div 2)"
      by simp_all
    have k: "0 < bit_length (n div 2)"
      using pos by (subst bit_length.simps) simp
    have bl: "bit_length n = Suc (bit_length (n div 2))"
      using 1(2) by (subst bit_length.simps) simp
    from k have "(2::int) ^ bit_length (n div 2) = 2 * 2 ^ (bit_length (n div 2) - 1)"
      by (cases "bit_length (n div 2)") simp_all
    with lo have "2 ^ bit_length (n div 2) \<le> 2 * (n div 2)" by simp
    also have "\<dots> \<le> n" by presburger
    finally have a: "2 ^ (bit_length n - 1) \<le> n" by (simp add: bl)
    from hi have "n div 2 + 1 \<le> 2 ^ bit_length (n div 2)" by simp
    then have "2 * (n div 2) + 2 \<le> 2 * 2 ^ bit_length (n div 2)" by simp
    moreover have "n < 2 * (n div 2) + 2" by presburger
    ultimately have "n < 2 ^ bit_length n" by (simp add: bl)
    with a show ?thesis by simp
  qed
qed

lemma bit_length_pos: "0 < n \<Longrightarrow> 0 < bit_length n"
  by (subst bit_length.simps) simp

lemma powi_2_nat: "0 \<le> e \<Longrightarrow> (2::real) powi e = 2 ^ nat e"
  by (simp add: power_int_def)

lemma powi_2_neg: "e < 0 \<Longrightarrow> (2::real) powi e = 1 / 2 ^ nat (- e)"
  by (simp add: power_int_def field_simps)

lemma powi_2_diff_nat: "(2::real) powi (int m - int n) = 2 ^ m / 2 ^ n"
  by (simp add: power_int_diff)

lemma floor_log2_test:
  assumes "0 < a" and "0 < b"
  shows "(if 0 \<le> d then b * 2 ^ nat d \<le> a else b \<le> a * 2 ^ nat (- d)) \<longleftrightarrow>
         (2::real) powi d \<le> of_int a / of_int b"
proof (cases "0 \<le> d")
  case True
  have "(b * 2 ^ nat d \<le> a) = (real_of_int (b * 2 ^ nat d) \<le> real_of_int a)"
    by (simp only: of_int_le_iff)
  also have "\<dots> = (2 ^ nat d \<le> real_of_int a / real_of_int b)"
    using assms by (simp add: field_simps)
  finally show ?thesis using True by (simp add: powi_2_nat)
next
  case False
  have "(b \<le> a * 2 ^ nat (- d)) = (real_of_int b \<le> real_of_int (a * 2 ^ nat (- d)))"
    by (simp only: of_int_le_iff)
  also have "\<dots> = (1 / 2 ^ nat (- d) \<le> real_of_int a / real_of_int b)"
    using assms by (simp add: field_simps)
  finally show ?thesis using False by (simp add: powi_2_neg)
qed

lemma floor_log2_bounds:
  assumes "0 < a" and "0 < b"
  shows "(2::real) powi (floor_log2 a b) \<le> of_int a / of_int b"
    and "of_int a / of_int b < (2::real) powi (floor_log2 a b + 1)"
proof -
  let ?la = "bit_length a" and ?lb = "bit_length b"
  let ?d = "int ?la - int ?lb"
  let ?x = "real_of_int a / real_of_int b"
  from bit_length_bounds [OF assms(1)] have
    a_lo: "(2::real) ^ (?la - 1) \<le> of_int a" and a_hi: "real_of_int a < 2 ^ ?la"
    by (metis of_int_le_iff of_int_numeral of_int_power, metis of_int_less_iff of_int_numeral of_int_power)
  from bit_length_bounds [OF assms(2)] have
    b_lo: "(2::real) ^ (?lb - 1) \<le> of_int b" and b_hi: "real_of_int b < 2 ^ ?lb"
    by (metis of_int_le_iff of_int_numeral of_int_power, metis of_int_less_iff of_int_numeral of_int_power)
  have la: "0 < ?la" and lb: "0 < ?lb"
    using assms by (simp_all add: bit_length_pos)
  have bpos: "0 < real_of_int b" and apos: "0 < real_of_int a" using assms by simp_all
  have up: "?x < 2 powi (?d + 1)"
  proof -
    have "?x < 2 ^ ?la / 2 ^ (?lb - 1)"
      by (rule frac_less) (use a_hi b_lo apos in simp_all)
    also have "\<dots> = 2 powi (int ?la - int (?lb - 1))"
      by (simp only: powi_2_diff_nat)
    also have "int ?la - int (?lb - 1) = ?d + 1" using lb by simp
    finally show ?thesis .
  qed
  have low: "2 powi (?d - 1) \<le> ?x"
  proof -
    have eq: "?d - 1 = int (?la - 1) - int ?lb"
      using la by (cases ?la) simp_all
    have "2 powi (?d - 1) = (2::real) powi (int (?la - 1) - int ?lb)"
      by (simp only: eq)
    also have "\<dots> = 2 ^ (?la - 1) / 2 ^ ?lb"
      by (simp only: powi_2_diff_nat)
    also have "\<dots> \<le> ?x"
      by (rule frac_le) (use a_lo b_hi bpos apos in simp_all)
    finally show ?thesis .
  qed
  have test: "floor_log2 a b = (if (2::real) powi ?d \<le> ?x then ?d else ?d - 1)"
    unfolding floor_log2_def Let_def floor_log2_test [OF assms] by simp
  show "(2::real) powi (floor_log2 a b) \<le> ?x"
    using low by (simp add: test)
  show "?x < (2::real) powi (floor_log2 a b + 1)"
    using up by (auto simp: test not_le)
qed

lemma round_half_even_div_cases:
  "round_half_even_div n d =
     (if 2 * (n mod d) < d then n div d
      else if d < 2 * (n mod d) then n div d + 1
      else if even (n div d) then n div d else n div d + 1)"
  by (simp add: round_half_even_div_def Let_def)

lemma div_mod_real:
  assumes "0 < d"
  shows "real_of_int n / of_int d = of_int (n div d) + of_int (n mod d) / of_int d"
proof -
  have "real_of_int n = of_int (n div d) * of_int d + of_int (n mod d)"
    by (metis of_int_add of_int_mult mult.commute mult_div_mod_eq)
  then show ?thesis using assms by (simp add: field_simps)
qed

lemma mod_fraction:
  assumes "0 < d"
  shows "(2 * (n mod d) < d) = (real_of_int (n mod d) / of_int d < 1 / 2)"
    and "(d < 2 * (n mod d)) = (1 / 2 < real_of_int (n mod d) / of_int d)"
    and "0 \<le> real_of_int (n mod d) / of_int d"
    and "real_of_int (n mod d) / of_int d < 1"
proof -
  have dpos: "0 < real_of_int d" using assms by simp
  have "(2 * (n mod d) < d) = (real_of_int (2 * (n mod d)) < of_int d)"
    by (simp only: of_int_less_iff)
  then show "(2 * (n mod d) < d) = (real_of_int (n mod d) / of_int d < 1 / 2)"
    using dpos by (simp add: field_simps)
  have "(d < 2 * (n mod d)) = (real_of_int d < of_int (2 * (n mod d)))"
    by (simp only: of_int_less_iff)
  then show "(d < 2 * (n mod d)) = (1 / 2 < real_of_int (n mod d) / of_int d)"
    using dpos by (simp add: field_simps)
  show "0 \<le> real_of_int (n mod d) / of_int d"
    using assms by simp
  show "real_of_int (n mod d) / of_int d < 1"
    using assms by simp
qed

lemma round_half_even_div_nearest:
  assumes "0 < d"
  shows "\<bar>real_of_int (round_half_even_div n d) - of_int n / of_int d\<bar> \<le> 1 / 2"
proof -
  define t where "t = real_of_int (n mod d) / of_int d"
  define f where "f = real_of_int (n div d)"
  have x: "real_of_int n / of_int d = f + t"
    using div_mod_real [OF assms, of n] by (simp add: t_def f_def)
  note m = mod_fraction [OF assms, of n, folded t_def]
  consider "t < 1 / 2" | "1 / 2 < t" | "t = 1 / 2" by linarith
  then show ?thesis
  proof cases
    case 1
    then have "real_of_int (round_half_even_div n d) = f"
      using m by (simp add: round_half_even_div_cases f_def)
    with 1 m(3) show ?thesis unfolding x by simp
  next
    case 2
    then have "real_of_int (round_half_even_div n d) = f + 1"
      using m by (simp add: round_half_even_div_cases f_def)
    with 2 m(4) show ?thesis unfolding x by simp
  next
    case 3
    then have "real_of_int (round_half_even_div n d) = f \<or>
               real_of_int (round_half_even_div n d) = f + 1"
      using m by (simp add: round_half_even_div_cases f_def)
    with 3 show ?thesis unfolding x by auto
  qed
qed

lemma round_half_even_div_tie:
  assumes "0 < d"
    and "\<bar>real_of_int (round_half_even_div n d) - of_int n / of_int d\<bar> = 1 / 2"
  shows "even (round_half_even_div n d)"
proof -
  define t where "t = real_of_int (n mod d) / of_int d"
  define f where "f = real_of_int (n div d)"
  have x: "real_of_int n / of_int d = f + t"
    using div_mod_real [OF assms(1), of n] by (simp add: t_def f_def)
  note m = mod_fraction [OF assms(1), of n, folded t_def]
  consider "t < 1 / 2" | "1 / 2 < t" | "t = 1 / 2" by linarith
  then show ?thesis
  proof cases
    case 1
    then have "real_of_int (round_half_even_div n d) = f"
      using m by (simp add: round_half_even_div_cases f_def)
    with 1 m(3) assms(2) show ?thesis unfolding x by simp
  next
    case 2
    then have "real_of_int (round_half_even_div n d) = f + 1"
      using m by (simp add: round_half_even_div_cases f_def)
    with 2 m(4) assms(2) show ?thesis unfolding x by simp
  next
    case 3
    then have "\<not> 2 * (n mod d) < d" and "\<not> d < 2 * (n mod d)"
      using m by simp_all
    then show ?thesis by (simp add: round_half_even_div_cases)
  qed
qed

lemma round_half_even_div_bound:
  assumes "0 < d" and "\<bar>n\<bar> \<le> K * d"
  shows "\<bar>round_half_even_div n d\<bar> \<le> K"
proof -
  define f where "f = n div d"
  define r where "r = n mod d"
  have r: "0 \<le> r" "r < d" using assms by (simp_all add: r_def)
  have n: "f * d + r = n" by (simp add: f_def r_def)
  from assms(2) have up: "n \<le> K * d" and lo: "- (K * d) \<le> n" by linarith+
  have f_lo: "- K \<le> f"
  proof (rule ccontr)
    assume "\<not> - K \<le> f"
    then have "f \<le> - K - 1" by simp
    then have "f * d \<le> (- K - 1) * d"
      using assms(1) by (intro mult_right_mono) simp_all
    also have "(- K - 1) * d = - (K * d) - d" by (simp add: algebra_simps)
    finally show False using n lo r by linarith
  qed
  have f_up1: "f + 1 \<le> K" if "0 < r"
  proof (rule ccontr)
    assume "\<not> f + 1 \<le> K"
    then have "K \<le> f" by simp
    then have "K * d \<le> f * d"
      using assms(1) by (intro mult_right_mono) simp_all
    then show False using n up that by linarith
  qed
  have f_up: "f \<le> K"
  proof (rule ccontr)
    assume "\<not> f \<le> K"
    then have "K + 1 \<le> f" by simp
    then have "(K + 1) * d \<le> f * d"
      using assms(1) by (intro mult_right_mono) simp_all
    also have "(K + 1) * d = K * d + d" by (simp add: algebra_simps)
    finally show False using n up r assms(1) by linarith
  qed
  have res: "round_half_even_div n d = f \<or> (round_half_even_div n d = f + 1 \<and> 0 < r)"
    using assms(1) r by (auto simp: round_half_even_div_cases f_def r_def)
  with f_lo f_up f_up1 show ?thesis by auto
qed

lemma powi_2_less_imp: "(2::real) powi e < 2 powi k \<Longrightarrow> e < k"
proof (rule ccontr)
  assume lt: "(2::real) powi e < 2 powi k" and "\<not> e < k"
  then have "k \<le> e" by simp
  then have "(2::real) powi k \<le> 2 powi e" by (intro power_int_increasing) simp_all
  with lt show False by simp
qed

text \<open>
  Rounding a fraction below \<open>2 ^ 1023\<close> in magnitude: the result is finite, its
  exponent is the one the magnitude asks for, its significand has at most 53 bits
  (\<open>2 ^ 53\<close> itself when the rounding carries), and it is within half a unit of the
  last place of the fraction.
\<close>

lemma round_to_float_spec:
  assumes b: "0 < b" and a: "a \<noteq> 0"
    and small: "real_of_int \<bar>a\<bar> / of_int b < 2 ^ 1023"
  obtains m q where "round_to_float a b = Finite m q"
    and "q = max (floor_log2 \<bar>a\<bar> b - 52) (- 1074)"
    and "\<bar>m\<bar> \<le> 2 ^ 53"
    and "\<bar>real_of_int m * 2 powi q - of_int a / of_int b\<bar> \<le> 2 powi q / 2"
proof -
  define e where "e = floor_log2 \<bar>a\<bar> b"
  define q where "q = max (e - 52) (- 1074)"
  define N where "N = (if 0 \<le> q then a else a * 2 ^ nat (- q))"
  define D where "D = (if 0 \<le> q then b * 2 ^ nat q else b)"
  define m where "m = round_half_even_div N D"
  have apos: "0 < \<bar>a\<bar>" using a by simp
  have bpos: "0 < real_of_int b" using b by simp
  have Dpos: "0 < D" using b by (simp add: D_def)
  have pq: "0 < (2::real) powi q" by simp
  have e_lo: "2 powi e \<le> real_of_int \<bar>a\<bar> / of_int b"
    and e_hi: "real_of_int \<bar>a\<bar> / of_int b < 2 powi (e + 1)"
    using floor_log2_bounds [OF apos b] by (simp_all add: e_def)
  have ratio: "real_of_int N / of_int D = (of_int a / of_int b) / 2 powi q"
  proof (cases "0 \<le> q")
    case True
    then show ?thesis by (simp add: N_def D_def powi_2_nat)
  next
    case False
    then show ?thesis by (simp add: N_def D_def powi_2_neg)
  qed
  have m_eq: "m = (if 0 \<le> q then round_half_even_div a (b * 2 ^ nat q)
                   else round_half_even_div (a * 2 ^ nat (- q)) b)"
    by (simp add: m_def N_def D_def)
  have near: "\<bar>real_of_int m * 2 powi q - of_int a / of_int b\<bar> \<le> 2 powi q / 2"
  proof -
    have "\<bar>real_of_int m - (of_int a / of_int b) / 2 powi q\<bar> \<le> 1 / 2"
      using round_half_even_div_nearest [OF Dpos, of N] by (simp add: m_def ratio)
    then have A: "\<bar>real_of_int m - (of_int a / of_int b) / 2 powi q\<bar> * 2 powi q \<le> 1 / 2 * 2 powi q"
      using pq by (intro mult_right_mono) simp_all
    have B: "\<bar>real_of_int m - (of_int a / of_int b) / 2 powi q\<bar> * 2 powi q =
                   \<bar>real_of_int m * 2 powi q - of_int a / of_int b\<bar>"
    proof -
      have "\<bar>real_of_int m - (of_int a / of_int b) / 2 powi q\<bar> * 2 powi q =
            \<bar>(real_of_int m - (of_int a / of_int b) / 2 powi q) * 2 powi q\<bar>"
        using pq by (simp add: abs_mult)
      also have "(real_of_int m - (of_int a / of_int b) / 2 powi q) * 2 powi q =
                 real_of_int m * 2 powi q - of_int a / of_int b"
        using pq by (simp add: field_simps)
      finally show ?thesis .
    qed
    have "\<bar>real_of_int m * 2 powi q - of_int a / of_int b\<bar> \<le> 1 / 2 * 2 powi q"
      using A by (simp only: B)
    then show ?thesis by simp
  qed
  have scale: "(2::real) powi (e + 1) \<le> 2 ^ 53 * 2 powi q"
  proof -
    have "e + 1 \<le> q + 53" by (simp add: q_def)
    then have "(2::real) powi (e + 1) \<le> 2 powi (q + 53)"
      by (intro power_int_increasing) simp_all
    also have "(2::real) powi (q + 53) = 2 powi q * 2 powi 53"
      by (simp add: power_int_add)
    finally show ?thesis by (simp add: mult.commute)
  qed
  have Nbound: "\<bar>N\<bar> \<le> 2 ^ 53 * D"
  proof -
    have "\<bar>real_of_int N / of_int D\<bar> = (real_of_int \<bar>a\<bar> / of_int b) / 2 powi q"
      using pq bpos by (simp add: ratio abs_divide)
    also have "\<dots> \<le> (2 ^ 53 * 2 powi q) / 2 powi q"
      using e_hi scale pq by (intro divide_right_mono) simp_all
    also have "\<dots> = 2 ^ 53" using pq by simp
    finally have "\<bar>real_of_int N\<bar> / of_int D \<le> 2 ^ 53"
      using Dpos by (simp add: abs_divide)
    then have "\<bar>real_of_int N\<bar> \<le> 2 ^ 53 * real_of_int D"
      using Dpos by (simp add: field_simps)
    then have "real_of_int \<bar>N\<bar> \<le> real_of_int (2 ^ 53 * D)"
      by simp
    then show ?thesis by (simp only: of_int_le_iff)
  qed
  have mbound: "\<bar>m\<bar> \<le> 2 ^ 53"
    unfolding m_def by (rule round_half_even_div_bound [OF Dpos Nbound])
  have "(2::real) powi e < 2 powi 1023"
    using e_lo small by simp
  then have "e < 1023" by (rule powi_2_less_imp)
  then have q_up: "q \<le> 970" by (simp add: q_def)
  have no_overflow: "\<not> (0 \<le> q \<and> 2 ^ 1024 \<le> \<bar>m\<bar> * 2 ^ nat q)"
  proof
    assume ov: "0 \<le> q \<and> 2 ^ 1024 \<le> \<bar>m\<bar> * 2 ^ nat q"
    then have "nat q \<le> 970" using q_up by simp
    then have "(2::int) ^ nat q \<le> 2 ^ 970" by (intro power_increasing) simp_all
    with mbound have "\<bar>m\<bar> * 2 ^ nat q \<le> 2 ^ 53 * 2 ^ 970"
      by (intro mult_mono) simp_all
    also have "(2::int) ^ 53 * 2 ^ 970 < 2 ^ 1024" by simp
    finally show False using ov by simp
  qed
  have "round_to_float a b = Finite m q"
  proof (cases "0 \<le> q")
    case True
    then have m1: "round_half_even_div a (b * 2 ^ nat q) = m" by (simp add: m_eq)
    from no_overflow True have "\<not> 2 ^ 1024 \<le> \<bar>m\<bar> * 2 ^ nat q" by simp
    with a True show ?thesis
      unfolding round_to_float_def Let_def e_def [symmetric] q_def [symmetric]
      by (simp add: m1)
  next
    case False
    then have m2: "round_half_even_div (a * 2 ^ nat (- q)) b = m" by (simp add: m_eq)
    with a False show ?thesis
      unfolding round_to_float_def Let_def e_def [symmetric] q_def [symmetric]
      by (simp add: m2)
  qed
  with that [of m q] near mbound show thesis
    by (simp add: q_def e_def)
qed

lemma round_to_float_zero: "round_to_float 0 b = Finite 0 0"
  by (simp add: round_to_float_def)

lemma true_div_finite:
  assumes "b \<noteq> 0" and "\<bar>a\<bar> < 2 ^ 1000"
  shows "\<exists>m q. true_div a b = Inr (Finite m q)"
proof (cases "a = 0")
  case True
  with assms(1) show ?thesis by (simp add: true_div_def round_to_float_zero)
next
  case False
  define a' where "a' = (if 0 < b then a else - a)"
  define b' where "b' = \<bar>b\<bar>"
  have b': "0 < b'" and a': "a' \<noteq> 0" using assms(1) False by (simp_all add: a'_def b'_def)
  have "real_of_int \<bar>a'\<bar> / of_int b' \<le> real_of_int \<bar>a'\<bar> / 1"
    using b' by (intro divide_left_mono) simp_all
  also have "real_of_int \<bar>a'\<bar> < real_of_int (2 ^ 1000)"
    using assms(2) unfolding of_int_less_iff by (simp add: a'_def)
  also have "real_of_int (2 ^ 1000) \<le> 2 ^ 1023" by simp
  finally have "real_of_int \<bar>a'\<bar> / of_int b' < 2 ^ 1023" by simp
  from round_to_float_spec [OF b' a' this] obtain m q where
    "round_to_float a' b' = Finite m q" by blast
  moreover have "true_div a b =
      (case round_to_float a' b' of Finite m q \<Rightarrow> Inr (Finite m q) | _ \<Rightarrow> Inl OverflowError)"
    using assms(1) by (auto simp: true_div_def a'_def b'_def)
  ultimately show ?thesis by simp
qed

text \<open>
  In the normal range the rounding error is at most \<open>2 ^ - 53\<close> of the fraction.
\<close>

lemma round_to_float_rel:
  assumes b: "0 < b" and a: "0 < a"
    and lo: "2 powi (- 1022) \<le> real_of_int a / of_int b"
    and hi: "real_of_int a / of_int b < 2 ^ 1023"
  obtains m q where "round_to_float a b = Finite m q"
    and "\<bar>real_of_int m * 2 powi q - of_int a / of_int b\<bar> \<le> (of_int a / of_int b) / 2 ^ 53"
proof -
  from a have a0: "a \<noteq> 0" and abs: "\<bar>a\<bar> = a" by simp_all
  from hi abs have small: "real_of_int \<bar>a\<bar> / of_int b < 2 ^ 1023" by simp
  from round_to_float_spec [OF b a0 small] obtain m q where
    r: "round_to_float a b = Finite m q" and
    q: "q = max (floor_log2 \<bar>a\<bar> b - 52) (- 1074)" and
    near: "\<bar>real_of_int m * 2 powi q - of_int a / of_int b\<bar> \<le> 2 powi q / 2"
    by blast
  define e where "e = floor_log2 a b"
  have e_lo: "2 powi e \<le> real_of_int a / of_int b"
    and e_hi: "real_of_int a / of_int b < 2 powi (e + 1)"
    using floor_log2_bounds [OF a b] by (simp_all add: e_def)
  from lo e_hi have "(2::real) powi (- 1022) < 2 powi (e + 1)" by (rule le_less_trans)
  then have "- 1022 < e + 1" by (rule powi_2_less_imp)
  with q abs have qe: "q = e - 52" by (simp add: e_def)
  have "(2::real) powi q / 2 = 2 powi e / 2 ^ 53"
  proof -
    have "(2::real) powi e = 2 powi (q + 52)" by (simp add: qe)
    also have "\<dots> = 2 powi q * 2 powi 52" by (simp add: power_int_add)
    finally show ?thesis by simp
  qed
  also have "\<dots> \<le> (real_of_int a / of_int b) / 2 ^ 53"
    using e_lo by (intro divide_right_mono) simp_all
  finally have "2 powi q / 2 \<le> (real_of_int a / of_int b) / 2 ^ 53" .
  with near have "\<bar>real_of_int m * 2 powi q - of_int a / of_int b\<bar>
                    \<le> (of_int a / of_int b) / 2 ^ 53" by linarith
  with r that show thesis by blast
qed

lemma true_div_rel:
  assumes "0 < a" and "0 < b"
    and "2 powi (- 1022) \<le> real_of_int a / of_int b" and "real_of_int a / of_int b < 2 ^ 1023"
  obtains m q where "true_div a b = Inr (Finite m q)"
    and "\<bar>real_of_int m * 2 powi q - of_int a / of_int b\<bar> \<le> (of_int a / of_int b) / 2 ^ 53"
proof -
  from round_to_float_rel [OF assms(2,1,3,4)] obtain m q where
    "round_to_float a b = Finite m q" and
    "\<bar>real_of_int m * 2 powi q - of_int a / of_int b\<bar> \<le> (of_int a / of_int b) / 2 ^ 53"
    by blast
  moreover from this(1) assms(2) have "true_div a b = Inr (Finite m q)"
    by (simp add: true_div_def)
  ultimately show thesis using that by blast
qed

lemma float_of_int_rel:
  assumes "0 < n" and "real_of_int n < 2 ^ 1023"
  obtains m q where "float_of_int n = Inr (Finite m q)"
    and "\<bar>real_of_int m * 2 powi q - of_int n\<bar> \<le> of_int n / 2 ^ 53"
proof -
  have one: "(0::int) < 1" by simp
  have "(2::real) powi (- 1022) \<le> 1" by (simp add: power_int_minus field_simps)
  also have "1 \<le> real_of_int n" using assms(1) by simp
  finally have lo: "2 powi (- 1022) \<le> real_of_int n / of_int 1" by simp
  have hi: "real_of_int n / of_int 1 < 2 ^ 1023" using assms(2) by simp
  from round_to_float_rel [OF one assms(1) lo hi] obtain m q where
    "round_to_float n 1 = Finite m q" and
    "\<bar>real_of_int m * 2 powi q - of_int n / of_int 1\<bar> \<le> (of_int n / of_int 1) / 2 ^ 53"
    by blast
  then have "float_of_int n = Inr (Finite m q)"
    and "\<bar>real_of_int m * 2 powi q - of_int n\<bar> \<le> of_int n / 2 ^ 53"
    by (simp_all add: float_of_int_def)
  then show thesis using that by blast
qed

lemma float_mul_rel:
  assumes pos: "0 < m1" "0 < m2"
    and lo: "2 powi (- 1022) \<le> (real_of_int m1 * 2 powi q1) * (real_of_int m2 * 2 powi q2)"
    and hi: "(real_of_int m1 * 2 powi q1) * (real_of_int m2 * 2 powi q2) < 2 ^ 1023"
  obtains m q where "float_mul (Finite m1 q1) (Finite m2 q2) = Finite m q"
    and "\<bar>real_of_int m * 2 powi q -
           (real_of_int m1 * 2 powi q1) * (real_of_int m2 * 2 powi q2)\<bar>
         \<le> (real_of_int m1 * 2 powi q1) * (real_of_int m2 * 2 powi q2) / 2 ^ 53"
proof -
  define s where "s = q1 + q2"
  define A where "A = (if 0 \<le> s then m1 * m2 * 2 ^ nat s else m1 * m2)"
  define B where "B = (if 0 \<le> s then 1 else (2::int) ^ nat (- s))"
  let ?P = "(real_of_int m1 * 2 powi q1) * (real_of_int m2 * 2 powi q2)"
  have A: "0 < A" and B: "0 < B" using pos by (simp_all add: A_def B_def)
  have P: "?P = real_of_int (m1 * m2) * 2 powi s"
    by (simp add: s_def power_int_add)
  have AB: "real_of_int A / of_int B = ?P"
  proof (cases "0 \<le> s")
    case True
    then show ?thesis by (simp add: A_def B_def P powi_2_nat)
  next
    case False
    then show ?thesis by (simp add: A_def B_def P powi_2_neg)
  qed
  have fm: "float_mul (Finite m1 q1) (Finite m2 q2) = round_to_float A B"
    by (simp add: A_def B_def s_def)
  from lo hi have "2 powi (- 1022) \<le> real_of_int A / of_int B"
    and "real_of_int A / of_int B < 2 ^ 1023"
    by (simp_all only: AB)
  from round_to_float_rel [OF B A this] obtain m q where
    "round_to_float A B = Finite m q" and
    "\<bar>real_of_int m * 2 powi q - of_int A / of_int B\<bar> \<le> (of_int A / of_int B) / 2 ^ 53"
    by blast
  then have "float_mul (Finite m1 q1) (Finite m2 q2) = Finite m q"
    and "\<bar>real_of_int m * 2 powi q - ?P\<bar> \<le> ?P / 2 ^ 53"
    by (simp_all only: fm AB)
  then show thesis using that by blast
qed

lemma py_round_nearest:
  "\<exists>p. py_round (Finite m q) = Inr p \<and> \<bar>real_of_int p - real_of_int m * 2 powi q\<bar> \<le> 1 / 2 \<and>
       (\<bar>real_of_int p - real_of_int m * 2 powi q\<bar> = 1 / 2 \<longrightarrow> even p)"
proof (cases "0 \<le> q")
  case True
  then have "real_of_int (m * 2 ^ nat q) = real_of_int m * 2 powi q"
    by (simp add: powi_2_nat)
  then have z: "\<bar>real_of_int (m * 2 ^ nat q) - real_of_int m * 2 powi q\<bar> = 0"
    by (simp only: diff_self abs_zero)
  have le: "\<bar>real_of_int (m * 2 ^ nat q) - real_of_int m * 2 powi q\<bar> \<le> 1 / 2"
    unfolding z by simp
  have tie: "\<bar>real_of_int (m * 2 ^ nat q) - real_of_int m * 2 powi q\<bar> = 1 / 2 \<longrightarrow>
             even (m * 2 ^ nat q)"
    unfolding z by simp
  from True have "py_round (Finite m q) = Inr (m * 2 ^ nat q)" by simp
  with le tie show ?thesis by blast
next
  case False
  have d: "(0::int) < 2 ^ nat (- q)" by simp
  have v: "real_of_int m / of_int (2 ^ nat (- q)) = real_of_int m * 2 powi q"
    using False by (simp add: powi_2_neg)
  from round_half_even_div_nearest [OF d, of m] round_half_even_div_tie [OF d, of m]
  have "\<bar>real_of_int (round_half_even_div m (2 ^ nat (- q))) - real_of_int m * 2 powi q\<bar> \<le> 1 / 2"
    and "\<bar>real_of_int (round_half_even_div m (2 ^ nat (- q))) - real_of_int m * 2 powi q\<bar> = 1 / 2
         \<longrightarrow> even (round_half_even_div m (2 ^ nat (- q)))"
    unfolding v by blast+
  moreover from False have
    "py_round (Finite m q) = Inr (round_half_even_div m (2 ^ nat (- q)))" by simp
  ultimately show ?thesis by blast
qed

text \<open>
  An integer within one half of \<open>Y\<close> is within one half of the fraction \<open>V / b\<close> as soon
  as \<open>Y\<close> is closer to the fraction than half a \<open>b\<close>-th.
\<close>

lemma nearest_from_close:
  fixes p V b :: int and Y :: real
  assumes b: "0 < b"
    and pY: "\<bar>real_of_int p - Y\<bar> \<le> 1 / 2"
    and close: "\<bar>Y - of_int V / of_int b\<bar> < 1 / (2 * of_int b)"
  shows "\<bar>real_of_int p - of_int V / of_int b\<bar> \<le> 1 / 2"
proof (rule ccontr)
  assume "\<not> \<bar>real_of_int p - of_int V / of_int b\<bar> \<le> 1 / 2"
  then have far: "1 / 2 < \<bar>real_of_int p - of_int V / of_int b\<bar>" by simp
  have bpos: "0 < real_of_int b" using b by simp
  have scaled: "\<bar>real_of_int p - of_int V / of_int b\<bar> * (2 * of_int b) =
                real_of_int \<bar>2 * p * b - 2 * V\<bar>"
  proof -
    have "\<bar>real_of_int p - of_int V / of_int b\<bar> * (2 * of_int b) =
          \<bar>(real_of_int p - of_int V / of_int b) * (2 * of_int b)\<bar>"
      using bpos by (simp add: abs_mult)
    also have "(real_of_int p - of_int V / of_int b) * (2 * of_int b) =
               real_of_int (2 * p * b - 2 * V)"
      using bpos by (simp add: field_simps)
    finally show ?thesis by simp
  qed
  have "1 / 2 * (2 * real_of_int b) < \<bar>real_of_int p - of_int V / of_int b\<bar> * (2 * of_int b)"
    using far bpos by (intro mult_strict_right_mono) simp_all
  then have "real_of_int b < real_of_int \<bar>2 * p * b - 2 * V\<bar>"
    unfolding scaled by simp
  then have "b < \<bar>2 * p * b - 2 * V\<bar>" by (simp only: of_int_less_iff)
  then have "b + 1 \<le> \<bar>2 * p * b - 2 * V\<bar>" by simp
  then have "real_of_int (b + 1) \<le> real_of_int \<bar>2 * p * b - 2 * V\<bar>"
    by (simp only: of_int_le_iff)
  then have "real_of_int b + 1 \<le> \<bar>real_of_int p - of_int V / of_int b\<bar> * (2 * of_int b)"
    unfolding scaled by simp
  moreover have c: "0 < 2 * real_of_int b" using bpos by simp
  ultimately have "(real_of_int b + 1) / (2 * of_int b) \<le> \<bar>real_of_int p - of_int V / of_int b\<bar>"
    by (simp only: pos_divide_le_eq [OF c])
  moreover have "(real_of_int b + 1) / (2 * of_int b) = 1 / 2 + 1 / (2 * of_int b)"
    using bpos by (simp add: field_simps)
  ultimately have lower: "1 / 2 + 1 / (2 * of_int b) \<le> \<bar>real_of_int p - of_int V / of_int b\<bar>"
    by simp
  have "\<bar>real_of_int p - of_int V / of_int b\<bar> \<le>
        \<bar>real_of_int p - Y\<bar> + \<bar>Y - of_int V / of_int b\<bar>"
    by linarith
  with pY close lower show False by linarith
qed

lemma rel_err_bounds:
  fixes X x :: real
  assumes "\<bar>X - x\<bar> \<le> x / 2 ^ 53" and "0 < x"
  shows "x * (1 - 1 / 2 ^ 53) \<le> X" and "X \<le> x * (1 + 1 / 2 ^ 53)"
    and "x / 2 \<le> X" and "X \<le> 2 * x"
proof -
  from assms(1) have "X - x \<le> x / 2 ^ 53 \<and> - (X - x) \<le> x / 2 ^ 53"
    by (simp only: abs_le_iff)
  then have 1: "X - x \<le> x / 9007199254740992" and 2: "x - X \<le> x / 9007199254740992"
    by simp_all
  show "x * (1 - 1 / 2 ^ 53) \<le> X" using 2 by (simp add: algebra_simps)
  show "X \<le> x * (1 + 1 / 2 ^ 53)" using 1 by (simp add: algebra_simps)
  show "x / 2 \<le> X" using 2 assms(2) by simp
  show "X \<le> 2 * x" using 1 assms(2) by simp
qed

lemma err_sum:
  fixes X x Y :: real
  assumes "\<bar>X - x\<bar> \<le> x / 2 ^ 53" and "\<bar>Y - X * 100\<bar> \<le> X * 100 / 2 ^ 53" and "0 < x"
  shows "\<bar>Y - 100 * x\<bar> \<le> 300 * x / 2 ^ 53"
proof -
  from assms(1) have "X - x \<le> x / 2 ^ 53 \<and> - (X - x) \<le> x / 2 ^ 53"
    by (simp only: abs_le_iff)
  then have 1: "X - x \<le> x / 9007199254740992" and 2: "x - X \<le> x / 9007199254740992"
    by simp_all
  from assms(2) have "Y - X * 100 \<le> X * 100 / 2 ^ 53 \<and> - (Y - X * 100) \<le> X * 100 / 2 ^ 53"
    by (simp only: abs_le_iff)
  then have 3: "Y - X * 100 \<le> X * 100 / 9007199254740992"
    and 4: "X * 100 - Y \<le> X * 100 / 9007199254740992"
    by simp_all
  have "Y - 100 * x \<le> 300 * x / 9007199254740992" using 1 2 3 4 assms(3) by linarith
  moreover have "- (Y - 100 * x) \<le> 300 * x / 9007199254740992" using 1 2 3 4 assms(3) by linarith
  ultimately show ?thesis by (simp only: abs_le_iff) simp
qed

lemma prod_bounds:
  fixes P t :: real
  assumes "t * ((1 - 1 / 2 ^ 53) * (1 - 1 / 2 ^ 53)) \<le> P"
    and "P \<le> t * ((1 + 1 / 2 ^ 53) * (1 + 1 / 2 ^ 53))" and "0 < t"
  shows "t / 2 \<le> P" and "P \<le> 2 * t"
proof -
  from assms(1) have 3: "t * (81129638414606663681390495662081 / 81129638414606681695789005144064) \<le> P"
    by simp
  from assms(2) have 4: "P \<le> t * (81129638414606699710187514626049 / 81129638414606681695789005144064)"
    by simp
  show "t / 2 \<le> P" using 3 assms(3) by linarith
  show "P \<le> 2 * t" using 4 assms(3) by linarith
qed

lemma err_prod:
  fixes P t Y :: real
  assumes "\<bar>Y - P\<bar> \<le> P / 2 ^ 53"
    and "t * ((1 - 1 / 2 ^ 53) * (1 - 1 / 2 ^ 53)) \<le> P"
    and "P \<le> t * ((1 + 1 / 2 ^ 53) * (1 + 1 / 2 ^ 53))" and "0 < t"
  shows "\<bar>Y - t\<bar> \<le> 8 * t / 2 ^ 53" and "t / 2 \<le> P" and "P \<le> 2 * t"
proof -
  from assms(1) have "Y - P \<le> P / 2 ^ 53 \<and> - (Y - P) \<le> P / 2 ^ 53"
    by (simp only: abs_le_iff)
  then have 1: "Y - P \<le> P / 9007199254740992" and 2: "P - Y \<le> P / 9007199254740992"
    by simp_all
  from assms(2) have 3: "t * (81129638414606663681390495662081 / 81129638414606681695789005144064) \<le> P"
    by simp
  from assms(3) have 4: "P \<le> t * (81129638414606699710187514626049 / 81129638414606681695789005144064)"
    by simp
  show "t / 2 \<le> P" using 3 assms(4) by linarith
  show "P \<le> 2 * t" using 4 assms(4) by linarith
  have "Y - t \<le> 8 * t / 9007199254740992" using 1 2 3 4 assms(4) by linarith
  moreover have "- (Y - t) \<le> 8 * t / 9007199254740992" using 1 2 3 4 assms(4) by linarith
  ultimately show "\<bar>Y - t\<bar> \<le> 8 * t / 2 ^ 53" by (simp only: abs_le_iff) simp
qed

lemma significand_pos:
  assumes "0 < real_of_int m * 2 powi q"
  shows "0 < m"
proof -
  have "0 < (2::real) powi q" by simp
  with assms have "0 < real_of_int m" by (rule zero_less_mult_pos2)
  then show ?thesis by simp
qed

lemma float_100: "float_of_int 100 = Inr (Finite 7036874417766400 (- 46))"
  by code_simp

lemma float_100_value: "real_of_int 7036874417766400 * 2 powi (- 46) = 100"
  by (simp add: power_int_minus)

text \<open>
  For an amount and a base price between 1 and \<open>2 ^ 40\<close> the percentage the loop body
  derives is an integer nearest to the exact quotient \<open>100 * amt / base\<close>.
\<close>

lemma derive_percentage_nearest:
  assumes amt: "0 < amt" "amt < 2 ^ 40" and base: "0 < base" "base < 2 ^ 40"
  shows "\<exists>p. derive_percentage amt base = Inr p \<and>
             \<bar>real_of_int p - 100 * of_int amt / of_int base\<bar> \<le> 1 / 2"
proof -
  define x where "x = real_of_int amt / of_int base"
  have bpos: "0 < real_of_int base" and apos: "0 < real_of_int amt"
    using amt base by simp_all
  have a1: "1 \<le> real_of_int amt" using amt(1) by simp
  have a40: "real_of_int amt < 2 ^ 40"
    using amt(2) by (metis of_int_less_iff of_int_numeral of_int_power)
  have b1: "1 \<le> real_of_int base" using base(1) by simp
  have b40: "real_of_int base < 2 ^ 40"
    using base(2) by (metis of_int_less_iff of_int_numeral of_int_power)
  have xpos: "0 < x" using apos bpos by (simp add: x_def)
  have x_lo: "1 / 2 ^ 40 \<le> x"
  proof -
    have "1 / 2 ^ 40 \<le> 1 / real_of_int base"
      using b40 bpos by (intro divide_left_mono) simp_all
    also have "\<dots> \<le> x"
      unfolding x_def using a1 bpos by (intro divide_right_mono) simp_all
    finally show ?thesis .
  qed
  have x_hi: "x < 2 ^ 40"
  proof -
    have "x \<le> real_of_int amt / 1"
      unfolding x_def using b1 apos by (intro divide_left_mono) simp_all
    with a40 show ?thesis by simp
  qed
  have tiny: "(2::real) powi (- 1022) \<le> 1 / 2 ^ 40"
    by (simp add: power_int_minus field_simps)
  have lo1: "2 powi (- 1022) \<le> real_of_int amt / of_int base"
    using tiny x_lo unfolding x_def by (rule order_trans)
  have hi1: "real_of_int amt / of_int base < 2 ^ 1023"
  proof -
    have "x < 2 ^ 40" by (rule x_hi)
    also have "(2::real) ^ 40 \<le> 2 ^ 1023" by (intro power_increasing) simp_all
    finally show ?thesis by (simp only: x_def)
  qed
  from true_div_rel [OF amt(1) base(1) lo1 hi1] obtain m1 q1 where
    td: "true_div amt base = Inr (Finite m1 q1)" and
    e1: "\<bar>real_of_int m1 * 2 powi q1 - x\<bar> \<le> x / 2 ^ 53"
    unfolding x_def by blast
  define X where "X = real_of_int m1 * 2 powi q1"
  have e1': "\<bar>X - x\<bar> \<le> x / 2 ^ 53" using e1 by (simp only: X_def)
  have X_lo: "x / 2 \<le> X" and X_hi: "X \<le> 2 * x"
    using rel_err_bounds [OF e1' xpos] by blast+
  have Xpos: "0 < X" using X_lo xpos by linarith
  have m1: "0 < m1"
    using Xpos unfolding X_def by (rule significand_pos)
  have P: "(real_of_int m1 * 2 powi q1) * (real_of_int 7036874417766400 * 2 powi (- 46)) = X * 100"
    by (simp only: float_100_value X_def)
  have lo2: "2 powi (- 1022) \<le> X * 100"
  proof -
    have "(2::real) powi (- 1022) \<le> (1 / 2 ^ 40) / 2"
      by (simp add: power_int_minus field_simps)
    also have "\<dots> \<le> x / 2" using x_lo by (intro divide_right_mono) simp_all
    also have "\<dots> \<le> X" by (rule X_lo)
    also have "X \<le> X * 100" using Xpos by simp
    finally show ?thesis .
  qed
  have hi2: "X * 100 < 2 ^ 1023"
  proof -
    have "X * 100 < 2 ^ 48" using X_hi x_hi by simp
    also have "(2::real) ^ 48 \<le> 2 ^ 1023" by (intro power_increasing) simp_all
    finally show ?thesis .
  qed
  have m2: "(0::int) < 7036874417766400" by simp
  from float_mul_rel [OF m1 m2, of q1 "- 46"] lo2 hi2 obtain m q where
    fm: "float_mul (Finite m1 q1) (Finite 7036874417766400 (- 46)) = Finite m q" and
    e2: "\<bar>real_of_int m * 2 powi q - X * 100\<bar> \<le> X * 100 / 2 ^ 53"
    unfolding P by blast
  define Y where "Y = real_of_int m * 2 powi q"
  have e2': "\<bar>Y - X * 100\<bar> \<le> X * 100 / 2 ^ 53" using e2 by (simp only: Y_def)
  from py_round_nearest [of m q] obtain p where
    pr: "py_round (Finite m q) = Inr p" and pY: "\<bar>real_of_int p - Y\<bar> \<le> 1 / 2"
    unfolding Y_def by blast
  have dp: "derive_percentage amt base = Inr p"
    by (simp add: derive_percentage_def td float_mul_int_def float_100 fm pr
          del: float_mul.simps py_round.simps)
  have err: "\<bar>Y - 100 * x\<bar> \<le> 300 * x / 2 ^ 53"
    by (rule err_sum [OF e1' e2' xpos])
  have "300 * x / 2 ^ 53 = (300 * real_of_int amt / 2 ^ 53) / of_int base"
    by (simp add: x_def)
  also have "\<dots> < (1 / 2) / of_int base"
    using a40 bpos by (intro divide_strict_right_mono) simp_all
  finally have "300 * x / 2 ^ 53 < 1 / (2 * of_int base)" by simp
  with err have close: "\<bar>Y - of_int (100 * amt) / of_int base\<bar> < 1 / (2 * of_int base)"
    by (simp add: x_def)
  from nearest_from_close [OF base(1) pY close]
  have "\<bar>real_of_int p - 100 * of_int amt / of_int base\<bar> \<le> 1 / 2" by simp
  with dp show ?thesis by blast
qed

text \<open>
  For a percentage from 1 to 100 and a base price between 1 and \<open>2 ^ 40\<close> the amount
  the loop body derives is an integer nearest to the exact \<open>perc * base / 100\<close>.
\<close>

lemma derive_amount_nearest:
  assumes perc: "0 < perc" "perc \<le> 100" and base: "0 < base" "base < 2 ^ 40"
  shows "\<exists>a. derive_amount perc base = Inr a \<and>
             \<bar>real_of_int a - of_int perc * of_int base / 100\<bar> \<le> 1 / 2"
proof -
  define x where "x = real_of_int perc / 100"
  define b where "b = real_of_int base"
  define t where "t = x * b"
  have p1: "1 \<le> real_of_int perc" using perc(1) by simp
  have p100: "real_of_int perc \<le> 100" using perc(2) by simp
  have b1: "1 \<le> b" using base(1) by (simp add: b_def)
  have b40: "b < 2 ^ 40"
    unfolding b_def using base(2) by (metis of_int_less_iff of_int_numeral of_int_power)
  have x_lo: "1 / 100 \<le> x" and x_hi: "x \<le> 1" using p1 p100 by (simp_all add: x_def)
  have tiny: "(2::real) powi (- 1022) \<le> 1 / 1600"
    by (simp add: power_int_minus field_simps)
  have big: "(2::real) ^ 48 \<le> 2 ^ 1023" by (intro power_increasing) simp_all
  have c100: "(0::int) < 100" by simp
  have lo1: "2 powi (- 1022) \<le> real_of_int perc / of_int 100"
    using tiny x_lo by (simp add: x_def)
  have hi1: "real_of_int perc / of_int 100 < 2 ^ 1023"
    using x_hi big by (simp add: x_def)
  from true_div_rel [OF perc(1) c100 lo1 hi1] obtain m1 q1 where
    td: "true_div perc 100 = Inr (Finite m1 q1)" and
    e1: "\<bar>real_of_int m1 * 2 powi q1 - x\<bar> \<le> x / 2 ^ 53"
    unfolding x_def by auto
  define X where "X = real_of_int m1 * 2 powi q1"
  have e1': "\<bar>X - x\<bar> \<le> x / 2 ^ 53" using e1 by (simp only: X_def)
  have "(2::real) ^ 40 \<le> 2 ^ 1023" by (intro power_increasing) simp_all
  with b40 have hiB: "real_of_int base < 2 ^ 1023"
    unfolding b_def by (rule less_le_trans)
  from float_of_int_rel [OF base(1) hiB] obtain m2 q2 where
    fi: "float_of_int base = Inr (Finite m2 q2)" and
    eB: "\<bar>real_of_int m2 * 2 powi q2 - b\<bar> \<le> b / 2 ^ 53"
    unfolding b_def by blast
  define B where "B = real_of_int m2 * 2 powi q2"
  have eB': "\<bar>B - b\<bar> \<le> b / 2 ^ 53" using eB by (simp only: B_def)
  have xpos: "0 < x" using x_lo by linarith
  have bpos: "0 < b" using b1 by linarith
  have X_lo: "x * (1 - 1 / 2 ^ 53) \<le> X" and X_hi: "X \<le> x * (1 + 1 / 2 ^ 53)"
    using rel_err_bounds [OF e1' xpos] by blast+
  have B_lo: "b * (1 - 1 / 2 ^ 53) \<le> B" and B_hi: "B \<le> b * (1 + 1 / 2 ^ 53)"
    using rel_err_bounds [OF eB' bpos] by blast+
  have Xpos: "0 < X"
  proof -
    have "0 < x * (1 - 1 / 2 ^ 53)" using xpos by simp
    with X_lo show ?thesis by linarith
  qed
  have Bpos: "0 < B"
  proof -
    have "0 < b * (1 - 1 / 2 ^ 53)" using bpos by simp
    with B_lo show ?thesis by linarith
  qed
  have m1: "0 < m1" using Xpos unfolding X_def by (rule significand_pos)
  have m2: "0 < m2" using Bpos unfolding B_def by (rule significand_pos)
  have tpos: "0 < t" using xpos bpos by (simp add: t_def)
  have t_lo: "1 / 100 \<le> t"
  proof -
    have "1 / 100 * 1 \<le> x * b" using x_lo b1 by (intro mult_mono) simp_all
    then show ?thesis by (simp add: t_def)
  qed
  have t_hi: "t < 2 ^ 40"
  proof -
    have "x * b \<le> 1 * b" using x_hi bpos by (intro mult_right_mono) simp_all
    with b40 show ?thesis by (simp add: t_def)
  qed
  have XB_hi: "X * B \<le> t * ((1 + 1 / 2 ^ 53) * (1 + 1 / 2 ^ 53))"
  proof -
    have "X * B \<le> (x * (1 + 1 / 2 ^ 53)) * (b * (1 + 1 / 2 ^ 53))"
      using X_hi B_hi Xpos Bpos xpos bpos by (intro mult_mono) simp_all
    then show ?thesis by (simp add: t_def algebra_simps)
  qed
  have XB_lo: "t * ((1 - 1 / 2 ^ 53) * (1 - 1 / 2 ^ 53)) \<le> X * B"
  proof -
    have "(x * (1 - 1 / 2 ^ 53)) * (b * (1 - 1 / 2 ^ 53)) \<le> X * B"
      using X_lo B_lo xpos bpos by (intro mult_mono) simp_all
    then show ?thesis by (simp add: t_def algebra_simps)
  qed
  have XB_lo': "t / 2 \<le> X * B" and XB_hi': "X * B \<le> 2 * t"
    using prod_bounds [OF XB_lo XB_hi tpos] by blast+
  have lo2: "2 powi (- 1022) \<le> X * B"
    using tiny t_lo XB_lo' by linarith
  have hi2: "X * B < 2 ^ 1023"
  proof -
    have "X * B \<le> 2 * t" by (rule XB_hi')
    also have "2 * t < 2 ^ 41" using t_hi by simp
    also have "(2::real) ^ 41 \<le> 2 ^ 1023" by (intro power_increasing) simp_all
    finally show ?thesis .
  qed
  from float_mul_rel [OF m1 m2, of q1 q2] lo2 hi2 obtain m q where
    fm: "float_mul (Finite m1 q1) (Finite m2 q2) = Finite m q" and
    e2: "\<bar>real_of_int m * 2 powi q - X * B\<bar> \<le> X * B / 2 ^ 53"
    unfolding X_def B_def by blast
  define Y where "Y = real_of_int m * 2 powi q"
  have e2': "\<bar>Y - X * B\<bar> \<le> X * B / 2 ^ 53" using e2 by (simp only: Y_def)
  from py_round_nearest [of m q] obtain a where
    pr: "py_round (Finite m q) = Inr a" and aY: "\<bar>real_of_int a - Y\<bar> \<le> 1 / 2"
    unfolding Y_def by blast
  have da: "derive_amount perc base = Inr a"
    by (simp add: derive_amount_def td float_mul_int_def fi fm pr
          del: float_mul.simps py_round.simps)
  have err: "\<bar>Y - t\<bar> \<le> 8 * t / 2 ^ 53"
    by (rule err_prod(1) [OF e2' XB_lo XB_hi tpos])
  have "8 * t / 2 ^ 53 < 1 / 200" using t_hi by simp
  with err have "\<bar>Y - t\<bar> < 1 / (2 * real_of_int 100)" by simp
  moreover have "t = real_of_int (perc * base) / real_of_int 100"
    by (simp add: t_def x_def b_def)
  ultimately have close: "\<bar>Y - real_of_int (perc * base) / real_of_int 100\<bar>
                            < 1 / (2 * real_of_int 100)"
    by simp
  from nearest_from_close [OF c100 aY close]
  have "\<bar>real_of_int a - of_int perc * of_int base / 100\<bar> \<le> 1 / 2" by simp
  with da show ?thesis by blast
qed

subsection \<open>The items table\<close>

lemma items_loop_sums:
  "items_loop xs (sp, sd, out) =
     (sp + sum_list (map price xs), sd + sum_list (map paid xs),
      out @ concat (map (\<lambda>item. [Cell (description item), Cell (money (price item)),
                                   Cell (money (paid item))]) xs))"
  by (induction xs arbitrary: sp sd out) simp_all

lemma items_table_fst:
  "fst (items_table d) =
     (sum_list (map price (items d)), sum_list (map paid (items d)),
      sum_list (map paid (items d)) + vat d)"
  by (simp add: items_table_def items_loop_sums Let_def)


lemma items_table_no_image: "Image p \<notin> set (snd (items_table d))"
  by (auto simp: items_table_def items_loop_sums Let_def)

subsection \<open>The loops over the payments\<close>

lemma terms_loop_enumerate:
  "0 \<le> i \<Longrightarrow>
   terms_loop i ps =
     Inr (concat (map (\<lambda>(k, e). term_line (ordinal_word (i + int k)) e) (enumerate 0 ps)))"
proof (induction ps arbitrary: i)
  case Nil
  then show ?case by simp
next
  case (Cons pay rest)
  from Cons.prems have i1: "0 \<le> i + 1" by simp
  have shift: "map (\<lambda>(k, e). term_line (ordinal_word (i + int k)) e) (enumerate (Suc 0) rest) =
               map (\<lambda>(k, e). term_line (ordinal_word (i + 1 + int k)) e) (enumerate 0 rest)"
    by (auto simp add: enumerate_eq_zip zip_map1 algebra_simps simp del: upt_Suc
          simp flip: map_Suc_upt)
  from Cons.prems obtain w where w: "ordinal i = Inr w"
    by (simp add: ordinal_nonneg)
  then have ow: "ordinal_word i = w" by (simp add: ordinal_word_def)
  show ?case
    using Cons.IH [OF i1] w ow shift by simp
qed

lemma terms_loop_total: "0 \<le> i \<Longrightarrow> \<exists>t. terms_loop i ps = Inr t"
  by (simp add: terms_loop_enumerate)

lemma term_line_no_image: "Image p \<notin> set (term_line w e)"
  by (simp add: term_line_def)

lemma terms_loop_no_image: "terms_loop i ps = Inr t \<Longrightarrow> Image p \<notin> set t"
  by (induction ps arbitrary: i t) (auto split: sum.splits simp: term_line_no_image)

lemma payment_loop_length: "length (fst (payment_loop b ps)) = length ps"
  by (induction ps) (auto split: sum.splits prod.splits)

lemma payment_loop_frame:
  "map name (fst (payment_loop b ps)) = map name ps \<and>
   map date (fst (payment_loop b ps)) = map date ps \<and>
   map pay_description (fst (payment_loop b ps)) = map pay_description ps"
  by (induction ps) (auto split: sum.splits prod.splits)

lemma payment_loop_None:
  "payment_loop b ps = (ps', rows, None) \<Longrightarrow>
   list_all2 (derived b) ps ps' \<and>
   rows = concat (map (\<lambda>e'. payment_row e' (percentage e') (amount e')) ps')"
proof (induction ps arbitrary: ps' rows)
  case Nil
  then show ?case by simp
next
  case (Cons pay rest)
  from Cons.prems obtain perc amt rest' out where
    d: "derive (percentage pay) (amount pay) b = Inr (perc, amt)" and
    r: "payment_loop b rest = (rest', out, None)" and
    ps': "ps' = pay\<lparr>percentage := perc, amount := amt\<rparr> # rest'" and
    rows: "rows = payment_row pay perc amt @ out"
    by (auto split: sum.splits prod.splits)
  from Cons.IH [OF r] d ps' rows show ?case
    by (simp add: derived_def payment_row_def)
qed

lemma payment_loop_no_image: "Image p \<notin> set (fst (snd (payment_loop b ps)))"
  by (induction ps) (auto split: sum.splits prod.splits simp: payment_row_def)

lemma payment_loop_error_iff:
  "snd (snd (payment_loop b ps)) = None \<longleftrightarrow>
     (\<forall>e \<in> set ps. \<exists>r. derive (percentage e) (amount e) b = Inr r)"
  by (induction ps) (auto split: sum.splits prod.splits)

lemma payment_loop_first_error:
  assumes "\<forall>p \<in> set pre. \<exists>r. derive (percentage p) (amount p) b = Inr r"
    and "derive (percentage e) (amount e) b = Inl err"
  shows "snd (snd (payment_loop b (pre @ e # post))) = Some err"
  using assms by (induction pre) (auto split: sum.splits prod.splits)

lemma derive_resolved: "perc \<noteq> 0 \<Longrightarrow> amt \<noteq> 0 \<Longrightarrow> derive perc amt b = Inr (perc, amt)"
  by (simp add: derive_def)

lemma payment_loop_resolved:
  "\<forall>e \<in> set ps. percentage e \<noteq> 0 \<and> amount e \<noteq> 0 \<Longrightarrow>
   payment_loop b ps =
     (ps, concat (map (\<lambda>e. payment_row e (percentage e) (amount e)) ps), None)"
  by (induction ps) (simp_all add: derive_resolved)

subsection \<open>The composer, case by case\<close>

lemma init_pdf_ok:
  "regular_font a = None \<Longrightarrow> bold_font a = None \<Longrightarrow> init_pdf a = (Some [], [])"
  by (simp add: init_pdf_def)

lemma init_pdf_failure:
  "regular_font a = Some msg \<or> (regular_font a = None \<and> bold_font a = Some msg) \<Longrightarrow>
   init_pdf a = (None, [St_error_exc ''PDF initialization failed'' (Library_error msg)])"
  by (auto simp: init_pdf_def)

lemma create_invoice_pdf_success:
  assumes "regular_font a = None" and "bold_font a = None"
    and "draw_logo a = Inr (img, warn)"
    and "payment_loop (sum_list (map price (items d))) (payments d) = (ps', rows, None)"
  shows "\<exists>terms. terms_loop 0 ps' = Inr terms \<and>
           create_invoice_pdf a d =
             \<lparr>document = Some (img @ header d @ snd (items_table d) @ payment_heading @ rows @
                               [Rule] @ example_bank_details_4columns @
                               [Cell ''Terms & Conditions''] @ terms @ closing),
              diagnostics = warn,
              data_after = d\<lparr>payments := ps'\<rparr>\<rparr>"
proof -
  obtain terms where t: "terms_loop 0 ps' = Inr terms"
    using terms_loop_total [of 0 ps'] by auto
  obtain tot tab where it: "items_table d = (tot, tab)" by (cases "items_table d")
  have tot: "tot = (sum_list (map price (items d)), sum_list (map paid (items d)),
                    sum_list (map paid (items d)) + vat d)"
    using items_table_fst [of d] it by simp
  have "compose a d =
          (warn, d\<lparr>payments := ps'\<rparr>,
           Inr (img @ header d @ tab @ payment_heading @ rows @
                [Rule] @ example_bank_details_4columns @
                [Cell ''Terms & Conditions''] @ terms @ closing))"
    using assms(3,4) t by (simp add: compose_def it tot)
  then have "create_invoice_pdf a d =
             \<lparr>document = Some (img @ header d @ tab @ payment_heading @ rows @
                               [Rule] @ example_bank_details_4columns @
                               [Cell ''Terms & Conditions''] @ terms @ closing),
              diagnostics = warn,
              data_after = d\<lparr>payments := ps'\<rparr>\<rparr>"
    using assms(1,2) by (simp add: create_invoice_pdf_def init_pdf_ok)
  with t it show ?thesis by simp
qed

lemma create_invoice_pdf_font_failure:
  assumes "regular_font a = Some msg \<or> (regular_font a = None \<and> bold_font a = Some msg)"
  shows "create_invoice_pdf a d =
           \<lparr>document = None,
            diagnostics = [St_error_exc ''PDF initialization failed'' (Library_error msg)],
            data_after = d\<rparr>"
  using init_pdf_failure [OF assms] by (simp add: create_invoice_pdf_def)

lemma create_invoice_pdf_logo_failure:
  assumes "regular_font a = None" and "bold_font a = None" and "logo a = Logo_unreadable msg"
  shows "create_invoice_pdf a d =
           \<lparr>document = None,
            diagnostics = [St_error_exc ''Failed to generate PDF'' (Library_error msg)],
            data_after = d\<rparr>"
  using assms by (simp add: create_invoice_pdf_def init_pdf_ok compose_def draw_logo_def)

lemma create_invoice_pdf_derivation_failure:
  assumes "regular_font a = None" and "bold_font a = None"
    and "draw_logo a = Inr (img, warn)"
    and "payment_loop (sum_list (map price (items d))) (payments d) = (ps', rows, Some e)"
  shows "create_invoice_pdf a d =
           \<lparr>document = None,
            diagnostics = warn @ [St_error_exc ''Failed to generate PDF'' (Raised e)],
            data_after = d\<lparr>payments := ps'\<rparr>\<rparr>"
proof -
  obtain tot tab where it: "items_table d = (tot, tab)" by (cases "items_table d")
  have tot: "tot = (sum_list (map price (items d)), sum_list (map paid (items d)),
                    sum_list (map paid (items d)) + vat d)"
    using items_table_fst [of d] it by simp
  have "compose a d = (warn, d\<lparr>payments := ps'\<rparr>, Inl (Raised e))"
    using assms(3,4) by (simp add: compose_def it tot)
  then show ?thesis
    using assms(1,2) by (simp add: create_invoice_pdf_def init_pdf_ok)
qed

text \<open>The cases above are all the cases.\<close>

lemma create_invoice_pdf_cases:
  fixes a :: assets and d :: invoice_data
  obtains (font) msg where
      "regular_font a = Some msg \<or> (regular_font a = None \<and> bold_font a = Some msg)"
  | (logo) msg where
      "regular_font a = None" and "bold_font a = None" and "logo a = Logo_unreadable msg"
  | (derivation) img warn ps' rows e where
      "regular_font a = None" and "bold_font a = None" and "draw_logo a = Inr (img, warn)"
      and "payment_loop (sum_list (map price (items d))) (payments d) = (ps', rows, Some e)"
  | (success) img warn ps' rows where
      "regular_font a = None" and "bold_font a = None" and "draw_logo a = Inr (img, warn)"
      and "payment_loop (sum_list (map price (items d))) (payments d) = (ps', rows, None)"
proof (cases "regular_font a")
  case (Some msg)
  then show ?thesis using font by blast
next
  case rf: None
  show ?thesis
  proof (cases "bold_font a")
    case (Some msg)
    with rf show ?thesis using font by blast
  next
    case bf: None
    show ?thesis
    proof (cases "logo a")
      case (Logo_unreadable msg)
      with rf bf show ?thesis using logo by blast
    next
      case Logo_missing
      then have dl: "draw_logo a = Inr ([], [St_warning (''Logo file not found: '' @ LOGO_PATH)])"
        by (simp add: draw_logo_def)
      obtain ps' rows err where
        pl: "payment_loop (sum_list (map price (items d))) (payments d) = (ps', rows, err)"
        by (cases "payment_loop (sum_list (map price (items d))) (payments d)") auto
      show ?thesis
        using rf bf dl pl derivation success by (cases err) blast+
    next
      case Logo_ok
      then have dl: "draw_logo a = Inr ([Image LOGO_PATH], [])"
        by (simp add: draw_logo_def)
      obtain ps' rows err where
        pl: "payment_loop (sum_list (map price (items d))) (payments d) = (ps', rows, err)"
        by (cases "payment_loop (sum_list (map price (items d))) (payments d)") auto
      show ?thesis
        using rf bf dl pl derivation success by (cases err) blast+
    qed
  qed
qed

subsection \<open>Inputs on which the derivation raises nothing\<close>

lemma derive_no_raise:
  assumes "0 < b" and "b < 2 ^ 40"
    and "0 \<le> perc" and "perc \<le> 100" and "0 \<le> amt" and "amt < 2 ^ 40"
  shows "\<exists>r. derive perc amt b = Inr r"
proof (cases "perc = 0 \<and> amt \<noteq> 0")
  case True
  with assms have "0 < amt" by simp
  from derive_percentage_nearest [OF this assms(6,1,2)] True show ?thesis
    by (auto simp: derive_def)
next
  case False
  show ?thesis
  proof (cases "amt = 0 \<and> perc \<noteq> 0")
    case True
    with assms have "0 < perc" by simp
    from derive_amount_nearest [OF this assms(4,1,2)] True False show ?thesis
      by (auto simp: derive_def)
  next
    case no: False
    with False show ?thesis by (auto simp: derive_def)
  qed
qed

lemma payment_loop_no_raise:
  assumes "0 < b" and "b < 2 ^ 40"
    and "\<forall>e \<in> set ps. 0 \<le> percentage e \<and> percentage e \<le> 100 \<and>
                      0 \<le> amount e \<and> amount e < 2 ^ 40"
  shows "snd (snd (payment_loop b ps)) = None"
  unfolding payment_loop_error_iff
proof
  fix e assume "e \<in> set ps"
  with assms(3) have "0 \<le> percentage e" "percentage e \<le> 100"
    "0 \<le> amount e" "amount e < 2 ^ 40"
    by blast+
  then show "\<exists>r. derive (percentage e) (amount e) b = Inr r"
    by (rule derive_no_raise [OF assms(1,2)])
qed

subsection \<open>The sample invoices\<close>

lemma mixed_payments_loop:
  "fst (payment_loop 3000 mixed_payments) =
     [mixed_payments ! 0, (mixed_payments ! 1)\<lparr>percentage := 30\<rparr>,
      (mixed_payments ! 2)\<lparr>amount := 600\<rparr>]"
  "snd (snd (payment_loop 3000 mixed_payments)) = None"
  by code_simp+

lemma two_items_price: "sum_list (map price (items two_items)) = 3000"
  by (simp add: two_items_def two_items_list_def)

lemma two_items_loop:
  "snd (snd (payment_loop (sum_list (map price (items two_items))) (payments two_items))) = None"
  using mixed_payments_loop(2) by (simp add: two_items_price) (simp add: two_items_def)

lemma two_items_success:
  "\<exists>doc. document (create_invoice_pdf assets_no_logo two_items) = Some doc"
proof -
  obtain ps' rows where
    "payment_loop (sum_list (map price (items two_items))) (payments two_items) =
       (ps', rows, None)"
    using two_items_loop
    by (cases "payment_loop (sum_list (map price (items two_items))) (payments two_items)") auto
  from create_invoice_pdf_success [OF _ _ _ this, of assets_no_logo]
  show ?thesis by (auto simp: assets_no_logo_def draw_logo_def)
qed

subsection \<open>Totals\<close>



subsection \<open>Resolved entries\<close>

text \<open>
  C7. Derivation is idempotent on resolved entries. When the percentage and the amount
  of every entry are both non-zero, the loop body leaves each entry as it is, whatever
  the base price; the loop returns the list it was given and raises nothing, so that
  a second run on its result changes nothing, and the composer hands the caller's
  invoice data back unchanged.
\<close>

theorem derivation_idempotent:
  assumes "\<forall>e \<in> set ps. percentage e \<noteq> 0 \<and> amount e \<noteq> 0"
  shows "(\<forall>e \<in> set ps. derive (percentage e) (amount e) b = Inr (percentage e, amount e)) \<and>
         fst (payment_loop b ps) = ps \<and>
         snd (snd (payment_loop b ps)) = None \<and>
         fst (payment_loop b' (fst (payment_loop b ps))) = fst (payment_loop b ps) \<and>
         (payments d = ps \<longrightarrow> data_after (create_invoice_pdf a d) = d)"
proof (intro conjI impI)
  show "\<forall>e \<in> set ps. derive (percentage e) (amount e) b = Inr (percentage e, amount e)"
    using assms by (simp add: derive_resolved)
  show 1: "fst (payment_loop b ps) = ps"
    by (simp add: payment_loop_resolved [OF assms])
  show "snd (snd (payment_loop b ps)) = None"
    by (simp add: payment_loop_resolved [OF assms])
  show "fst (payment_loop b' (fst (payment_loop b ps))) = fst (payment_loop b ps)"
    by (simp add: payment_loop_resolved [OF assms])
  show "data_after (create_invoice_pdf a d) = d" if ps: "payments d = ps"
  proof (cases rule: create_invoice_pdf_cases [where a = a and d = d])
    case (font msg)
    from create_invoice_pdf_font_failure [OF this] show ?thesis by simp
  next
    case (logo msg)
    from create_invoice_pdf_logo_failure [OF this] show ?thesis by simp
  next
    case (derivation img warn ps' rows e)
    then show ?thesis using payment_loop_resolved [OF assms] ps by simp
  next
    case (success img warn ps' rows)
    from success(4) have "ps' = ps"
      using payment_loop_resolved [OF assms] ps by simp
    with create_invoice_pdf_success [OF success] ps show ?thesis by auto
  qed
qed

theorem derivation_idempotent_witness:
  "percentage (hd mixed_payments) \<noteq> 0 \<and> amount (hd mixed_payments) \<noteq> 0 \<and>
   derive 50 1500 0 = Inr (50, 1500) \<and>
   fst (payment_loop 0 [hd mixed_payments]) = [hd mixed_payments] \<and>
   snd (snd (payment_loop 0 [hd mixed_payments])) = None"
  using derivation_idempotent [of "[hd mixed_payments]" 0]
  by (simp add: mixed_payments_def)

subsection \<open>Validation before generation\<close>

lemma validation_errors_empty:
  "validation_errors pays sp = [] \<longleftrightarrow>
     (sum_list (map percentage pays) = 100 \<or> sum_list (map amount pays) = sp) \<and>
     (\<forall>p \<in> set pays. percentage p \<noteq> 0 \<or> amount p \<noteq> 0)"
  by (auto simp: validation_errors_def Let_def list_ex_iff)

text \<open>
  C2. The handler of the button calls the composer if and only if both checks pass:
  the percentages of the payments sum to 100 or their amounts sum to the sum of the
  item prices, and every payment has a non-zero percentage or a non-zero amount. The
  call, when made, is the call of the composer on the form's data. When a check
  fails no call is made, no document is stored and only error messages are shown;
  this is so whenever the percentages sum to 90 and the amounts do not sum to the
  total price.
\<close>

theorem validation_gate:
  "(composer_call (generate_invoice a form) \<noteq> None \<longleftrightarrow>
      (sum_list (map percentage (payments form)) = 100 \<or>
       sum_list (map amount (payments form)) = sum_list (map price (items form))) \<and>
      (\<forall>p \<in> set (payments form). percentage p \<noteq> 0 \<or> amount p \<noteq> 0)) \<and>
   (composer_call (generate_invoice a form) \<noteq> None \<longrightarrow>
      composer_call (generate_invoice a form) = Some (create_invoice_pdf a form)) \<and>
   (composer_call (generate_invoice a form) = None \<longrightarrow>
      pdf_data (generate_invoice a form) = None \<and>
      shown (generate_invoice a form) \<noteq> [] \<and>
      (\<forall>m \<in> set (shown (generate_invoice a form)). \<exists>t. m = St_error t)) \<and>
   (sum_list (map percentage (payments form)) = 90 \<and>
    sum_list (map amount (payments form)) \<noteq> sum_list (map price (items form)) \<longrightarrow>
      composer_call (generate_invoice a form) = None)"
proof -
  let ?errs = "validation_errors (payments form) (sum_list (map price (items form)))"
  have call: "composer_call (generate_invoice a form) =
                (if ?errs \<noteq> [] then None else Some (create_invoice_pdf a form))"
    by (simp add: generate_invoice_def Let_def)
  have rejected: "pdf_data (generate_invoice a form) = None \<and>
                  shown (generate_invoice a form) = map St_error ?errs" if "?errs \<noteq> []"
    using that by (simp add: generate_invoice_def Let_def)
  show ?thesis
  proof (cases "?errs = []")
    case True
    then show ?thesis
      using call validation_errors_empty [of "payments form" "sum_list (map price (items form))"]
      by auto
  next
    case False
    from rejected [OF False] False have "shown (generate_invoice a form) \<noteq> []"
      and "\<forall>m \<in> set (shown (generate_invoice a form)). \<exists>t. m = St_error t"
      and "pdf_data (generate_invoice a form) = None"
      by auto
    then show ?thesis
      using call False
        validation_errors_empty [of "payments form" "sum_list (map price (items form))"]
      by auto
  qed
qed

theorem validation_gate_witness:
  "composer_call (generate_invoice assets_ok ninety_percent) = None \<and>
   pdf_data (generate_invoice assets_ok ninety_percent) = None \<and>
   composer_call (generate_invoice assets_ok three_payments) =
     Some (create_invoice_pdf assets_ok three_payments)"
proof -
  have 1: "sum_list (map percentage (payments ninety_percent)) = 90"
    and 2: "sum_list (map amount (payments ninety_percent)) \<noteq>
            sum_list (map price (items ninety_percent))"
    by (simp_all add: ninety_percent_def two_items_def two_items_list_def)
  have 3: "sum_list (map percentage (payments three_payments)) = 100"
    and 4: "\<forall>p \<in> set (payments three_payments). percentage p \<noteq> 0 \<or> amount p \<noteq> 0"
    by (simp_all add: three_payments_def two_items_def)
  show ?thesis
    using validation_gate [of assets_ok ninety_percent]
      validation_gate [of assets_ok three_payments] 1 2 3 4
    by simp
qed

subsection \<open>What the composer writes back\<close>

lemma digits_length_1000: "n < 1000 \<Longrightarrow> length (digits n) \<le> 3"
proof -
  have 1: "length (digits k) = 1" if "k < 10" for k
    using that by (subst digits.simps) simp
  have 2: "length (digits k) \<le> 2" if "k < 100" for k
    using that 1 [of "k div 10"] by (subst digits.simps) auto
  show ?thesis if "n < 1000"
    using that 2 [of "n div 10"] 1 [of n] by (subst digits.simps) auto
qed

lemma comma_group_short: "length s \<le> 3 \<Longrightarrow> comma_group s = s"
  by (subst comma_group.simps) simp

lemma format_comma_d_small: "0 \<le> p \<Longrightarrow> p < 1000 \<Longrightarrow> format_comma_d p = format_d p"
  by (simp add: format_comma_d_def format_d_def comma_group_short digits_length_1000)

lemma create_invoice_pdf_data_after:
  "data_after (create_invoice_pdf a d) = d \<or>
   data_after (create_invoice_pdf a d) =
     d\<lparr>payments := fst (payment_loop (sum_list (map price (items d))) (payments d))\<rparr>"
proof (cases rule: create_invoice_pdf_cases [where a = a and d = d])
  case (font msg)
  from create_invoice_pdf_font_failure [OF this] show ?thesis by simp
next
  case (logo msg)
  from create_invoice_pdf_logo_failure [OF this] show ?thesis by simp
next
  case (derivation img warn ps' rows e)
  from create_invoice_pdf_derivation_failure [OF this] derivation(4) show ?thesis by simp
next
  case (success img warn ps' rows)
  from create_invoice_pdf_success [OF this] success(4) show ?thesis by auto
qed

lemma create_invoice_pdf_document:
  assumes "document (create_invoice_pdf a d) = Some doc"
  shows "\<exists>img warn ps' rows.
           regular_font a = None \<and> bold_font a = None \<and> draw_logo a = Inr (img, warn) \<and>
           payment_loop (sum_list (map price (items d))) (payments d) = (ps', rows, None) \<and>
           create_invoice_pdf a d =
             \<lparr>document = Some doc, diagnostics = warn, data_after = d\<lparr>payments := ps'\<rparr>\<rparr> \<and>
           doc = img @ header d @ snd (items_table d) @ payment_heading @ rows @
                 [Rule] @ example_bank_details_4columns @ [Cell ''Terms & Conditions''] @
                 concat (map (\<lambda>(k, e). term_line (ordinal_word (int k)) e) (enumerate 0 ps')) @
                 closing"
proof (cases rule: create_invoice_pdf_cases [where a = a and d = d])
  case (font msg)
  from create_invoice_pdf_font_failure [OF this] assms show ?thesis by simp
next
  case (logo msg)
  from create_invoice_pdf_logo_failure [OF this] assms show ?thesis by simp
next
  case (derivation img warn ps' rows e)
  from create_invoice_pdf_derivation_failure [OF this] assms show ?thesis by simp
next
  case (success img warn ps' rows)
  have "terms_loop 0 ps' =
          Inr (concat (map (\<lambda>(k, e). term_line (ordinal_word (int k)) e) (enumerate 0 ps')))"
    using terms_loop_enumerate [of 0 ps'] by simp
  with create_invoice_pdf_success [OF success] assms success show ?thesis by auto
qed

text \<open>
  C8. The derived percentage and amount are written back into each entry during the
  payment-schedule step. The invoice data the call leaves differ from the caller's
  in the list of payments only; the list keeps its length and every entry its name,
  date and description, whatever the outcome. When a document is returned, every
  entry holds the values the loop body derived for it, the rows of the payment table
  and the sentences of the terms section are both drawn from these entries, so that
  the percentage cell of a row and the percentage of the sentence show the same
  number; the two texts are the same for a percentage from 0 to 999 (the table
  groups the digits of a larger one by thousands, the sentence does not).
\<close>

theorem writeback_frame:
  "data_after (create_invoice_pdf a d) =
     d\<lparr>payments := payments (data_after (create_invoice_pdf a d))\<rparr> \<and>
   length (payments (data_after (create_invoice_pdf a d))) = length (payments d) \<and>
   map name (payments (data_after (create_invoice_pdf a d))) = map name (payments d) \<and>
   map date (payments (data_after (create_invoice_pdf a d))) = map date (payments d) \<and>
   map pay_description (payments (data_after (create_invoice_pdf a d))) =
     map pay_description (payments d) \<and>
   (\<forall>doc. document (create_invoice_pdf a d) = Some doc \<longrightarrow>
      list_all2 (derived (sum_list (map price (items d)))) (payments d)
        (payments (data_after (create_invoice_pdf a d))) \<and>
      (\<exists>pre mid.
         doc = pre @
               concat (map (\<lambda>e'. payment_row e' (percentage e') (amount e'))
                 (payments (data_after (create_invoice_pdf a d)))) @
               mid @
               concat (map (\<lambda>(k, e'). term_line (ordinal_word (int k)) e')
                 (enumerate 0 (payments (data_after (create_invoice_pdf a d))))) @
               closing)) \<and>
   payment_row e perc amt ! 2 = Cell (format_comma_d perc @ ''%'') \<and>
   term_line w e ! 1 = Write (format_d (percentage e) @ ''%'') \<and>
   (0 \<le> percentage e \<and> percentage e < 1000 \<longrightarrow>
      format_comma_d (percentage e) = format_d (percentage e))"
proof -
  let ?r = "create_invoice_pdf a d"
  let ?b = "sum_list (map price (items d))"
  have frame: "data_after ?r = d\<lparr>payments := payments (data_after ?r)\<rparr>"
    using create_invoice_pdf_data_after [of a d] by auto
  have same: "length (payments (data_after ?r)) = length (payments d) \<and>
              map name (payments (data_after ?r)) = map name (payments d) \<and>
              map date (payments (data_after ?r)) = map date (payments d) \<and>
              map pay_description (payments (data_after ?r)) = map pay_description (payments d)"
    using create_invoice_pdf_data_after [of a d]
      payment_loop_frame [of ?b "payments d"] payment_loop_length [of ?b "payments d"]
    by auto
  have doc: "list_all2 (derived ?b) (payments d) (payments (data_after ?r)) \<and>
      (\<exists>pre mid.
         doc = pre @
               concat (map (\<lambda>e'. payment_row e' (percentage e') (amount e'))
                 (payments (data_after ?r))) @
               mid @
               concat (map (\<lambda>(k, e'). term_line (ordinal_word (int k)) e')
                 (enumerate 0 (payments (data_after ?r)))) @
               closing)"
    if "document ?r = Some doc" for doc
  proof -
    from create_invoice_pdf_document [OF that] obtain img warn ps' rows where
      pl: "payment_loop ?b (payments d) = (ps', rows, None)" and
      r: "?r = \<lparr>document = Some doc, diagnostics = warn, data_after = d\<lparr>payments := ps'\<rparr>\<rparr>" and
      d: "doc = img @ header d @ snd (items_table d) @ payment_heading @ rows @
                [Rule] @ example_bank_details_4columns @ [Cell ''Terms & Conditions''] @
                concat (map (\<lambda>(k, e). term_line (ordinal_word (int k)) e) (enumerate 0 ps')) @
                closing"
      by blast
    from r have ps': "payments (data_after ?r) = ps'" by simp
    from payment_loop_None [OF pl] have
      l: "list_all2 (derived ?b) (payments d) ps'" and
      rows: "rows = concat (map (\<lambda>e'. payment_row e' (percentage e') (amount e')) ps')"
      by simp_all
    from d rows have
      "doc = (img @ header d @ snd (items_table d) @ payment_heading) @
             concat (map (\<lambda>e'. payment_row e' (percentage e') (amount e')) ps') @
             ([Rule] @ example_bank_details_4columns @ [Cell ''Terms & Conditions'']) @
             concat (map (\<lambda>(k, e). term_line (ordinal_word (int k)) e) (enumerate 0 ps')) @
             closing"
      by simp
    then have "\<exists>pre mid.
         doc = pre @ concat (map (\<lambda>e'. payment_row e' (percentage e') (amount e')) ps') @
               mid @
               concat (map (\<lambda>(k, e). term_line (ordinal_word (int k)) e) (enumerate 0 ps')) @
               closing"
      by blast
    with l show ?thesis unfolding ps' by simp
  qed
  have texts: "payment_row e perc amt ! 2 = Cell (format_comma_d perc @ ''%'')"
    "term_line w e ! 1 = Write (format_d (percentage e) @ ''%'')"
    by (simp_all add: payment_row_def term_line_def)
  from frame same doc texts format_comma_d_small [of "percentage e"] show ?thesis
    by blast
qed

theorem writeback_frame_witness:
  "\<exists>doc. document (create_invoice_pdf assets_no_logo two_items) = Some doc \<and>
     list_all2 (derived 3000) mixed_payments
       (payments (data_after (create_invoice_pdf assets_no_logo two_items))) \<and>
     map name (payments (data_after (create_invoice_pdf assets_no_logo two_items))) =
       [''down payment'', ''fitting payment'', []]"
proof -
  from two_items_success obtain doc where
    doc: "document (create_invoice_pdf assets_no_logo two_items) = Some doc"
    by blast
  have "payments two_items = mixed_payments"
    by (simp add: two_items_def)
  moreover have "map name mixed_payments = [''down payment'', ''fitting payment'', []]"
    by (simp add: mixed_payments_def)
  ultimately show ?thesis
    using writeback_frame [of assets_no_logo two_items] doc two_items_price
    by auto
qed

subsection \<open>Missing assets\<close>

lemma body_no_image:
  assumes "payment_loop b ps = (ps', rows, None)"
  shows "Image p \<notin> set (header d @ snd (items_table d) @ payment_heading @ rows @
           [Rule] @ example_bank_details_4columns @ [Cell ''Terms & Conditions''] @
           concat (map (\<lambda>(k, e). term_line (ordinal_word (int k)) e) (enumerate 0 ps')) @
           closing)"
proof -
  have "Image p \<notin> set rows"
    using payment_loop_no_image [of p b ps] assms by simp
  moreover have "Image p \<notin> set (header d)"
    by (simp add: header_def)
  moreover have "Image p \<notin> set payment_heading"
    by (simp add: payment_heading_def)
  moreover have "Image p \<notin> set example_bank_details_4columns"
    by (simp add: example_bank_details_4columns_def print_bank_column_def)
  moreover have "Image p \<notin> set closing"
    by (auto simp: closing_def)
  moreover have "Image p \<notin> set (concat (map (\<lambda>(k, e). term_line (ordinal_word (int k)) e)
                                  (enumerate 0 ps')))"
    by (auto simp: term_line_no_image)
  ultimately show ?thesis
    using items_table_no_image [of p d] by simp
qed

text \<open>
  C9. Asset errors are handled asymmetrically. With both fonts loaded, the logo file
  missing and no exception raised by the payment derivation, the call shows the
  warning, returns a document that is not empty and holds no image, the same document
  as with the logo but for its image; the derivation raises nothing, in particular,
  when the item prices sum to a value from 1 to \<open>2 ^ 40\<close>, the percentages are from 0
  to 100 and the amounts from 0 to \<open>2 ^ 40\<close>. With a font that fails to load the call returns
  no document, shows the diagnostic of the initialization and leaves the data as they
  were. No document is returned exactly when a font fails, the logo file is there but
  unreadable, or the payment derivation raises; the last message shown is then the
  diagnostic of the exception, and what comes back is \<open>None\<close>, never a part of a
  document.
\<close>

theorem asset_errors:
  "(regular_font a = None \<and> bold_font a = None \<and> logo a = Logo_missing \<and>
    snd (snd (payment_loop (sum_list (map price (items d))) (payments d))) = None \<longrightarrow>
      (\<exists>doc. document (create_invoice_pdf a d) = Some doc \<and> doc \<noteq> [] \<and>
         Image LOGO_PATH \<notin> set doc \<and>
         document (create_invoice_pdf (a\<lparr>logo := Logo_ok\<rparr>) d) = Some (Image LOGO_PATH # doc)) \<and>
      diagnostics (create_invoice_pdf a d) =
        [St_warning (''Logo file not found: '' @ LOGO_PATH)]) \<and>
   (regular_font a \<noteq> None \<or> bold_font a \<noteq> None \<longrightarrow>
      document (create_invoice_pdf a d) = None \<and>
      (\<exists>msg. diagnostics (create_invoice_pdf a d) =
         [St_error_exc ''PDF initialization failed'' (Library_error msg)]) \<and>
      data_after (create_invoice_pdf a d) = d) \<and>
   (document (create_invoice_pdf a d) = None \<longleftrightarrow>
      regular_font a \<noteq> None \<or> bold_font a \<noteq> None \<or> (\<exists>msg. logo a = Logo_unreadable msg) \<or>
      snd (snd (payment_loop (sum_list (map price (items d))) (payments d))) \<noteq> None) \<and>
   (document (create_invoice_pdf a d) = None \<longrightarrow>
      diagnostics (create_invoice_pdf a d) \<noteq> [] \<and>
      (\<exists>text e. last (diagnostics (create_invoice_pdf a d)) = St_error_exc text e)) \<and>
   (regular_font a = None \<and> bold_font a = None \<and> logo a = Logo_missing \<and>
    0 < sum_list (map price (items d)) \<and> sum_list (map price (items d)) < 2 ^ 40 \<and>
    (\<forall>e \<in> set (payments d). 0 \<le> percentage e \<and> percentage e \<le> 100 \<and>
                               0 \<le> amount e \<and> amount e < 2 ^ 40) \<longrightarrow>
      (\<exists>doc. document (create_invoice_pdf a d) = Some doc \<and> doc \<noteq> []))"
  (is "?missing \<and> ?font \<and> ?none \<and> ?shown \<and> ?valid")
proof -
  have core: "?missing \<and> ?font \<and> ?none \<and> ?shown"
  proof (cases rule: create_invoice_pdf_cases [where a = a and d = d])
  case (font msg)
  note r = create_invoice_pdf_font_failure [OF font, of d]
  from font have f: "regular_font a \<noteq> None \<or> bold_font a \<noteq> None" by auto
  from f have ?missing by auto
  moreover from r have ?font by simp
  moreover from r f have ?none by auto
  moreover from r have ?shown by simp
  ultimately show ?thesis by (intro conjI)
next
  case (logo msg)
  note r = create_invoice_pdf_logo_failure [OF logo, of d]
  from logo have ?missing by auto
  moreover from logo have ?font by simp
  moreover from r logo have ?none by simp
  moreover from r have ?shown by simp
  ultimately show ?thesis by (intro conjI)
next
  case (derivation img warn ps' rows e)
  note r = create_invoice_pdf_derivation_failure [OF derivation]
  from derivation have ?missing by auto
  moreover from derivation have ?font by simp
  moreover from r derivation have ?none by simp
  moreover from r have ?shown by simp
  ultimately show ?thesis by (intro conjI)
next
  case (success img warn ps' rows)
  let ?body = "header d @ snd (items_table d) @ payment_heading @ rows @
           [Rule] @ example_bank_details_4columns @ [Cell ''Terms & Conditions''] @
           concat (map (\<lambda>(k, e). term_line (ordinal_word (int k)) e) (enumerate 0 ps')) @
           closing"
  have t: "terms_loop 0 ps' =
          Inr (concat (map (\<lambda>(k, e). term_line (ordinal_word (int k)) e) (enumerate 0 ps')))"
    using terms_loop_enumerate [of 0 ps'] by simp
  have r: "create_invoice_pdf a d =
             \<lparr>document = Some (img @ ?body), diagnostics = warn,
              data_after = d\<lparr>payments := ps'\<rparr>\<rparr>"
    using create_invoice_pdf_success [OF success] t by auto
  have ne: "?body \<noteq> []" by (simp add: header_def)
  have noimg: "Image LOGO_PATH \<notin> set ?body"
    by (rule body_no_image [OF success(4)])
  have unread: "\<forall>msg. logo a \<noteq> Logo_unreadable msg"
    using success(3) by (auto simp: draw_logo_def)
  have ?missing
  proof (intro impI)
    assume "regular_font a = None \<and> bold_font a = None \<and> logo a = Logo_missing \<and>
      snd (snd (payment_loop (sum_list (map price (items d))) (payments d))) = None"
    then have missing: "logo a = Logo_missing" by simp
    from missing success(3) have iw: "img = []"
      "warn = [St_warning (''Logo file not found: '' @ LOGO_PATH)]"
      by (simp_all add: draw_logo_def)
    have "draw_logo (a\<lparr>logo := Logo_ok\<rparr>) = Inr ([Image LOGO_PATH], [])"
      by (simp add: draw_logo_def)
    from create_invoice_pdf_success [OF _ _ this success(4)] success(1,2) t
    have ok: "document (create_invoice_pdf (a\<lparr>logo := Logo_ok\<rparr>) d) =
                Some (Image LOGO_PATH # ?body)"
      by auto
    have "document (create_invoice_pdf a d) = Some ?body"
      using r iw by simp
    with ne noimg ok have
      "\<exists>doc. document (create_invoice_pdf a d) = Some doc \<and> doc \<noteq> [] \<and>
         Image LOGO_PATH \<notin> set doc \<and>
         document (create_invoice_pdf (a\<lparr>logo := Logo_ok\<rparr>) d) = Some (Image LOGO_PATH # doc)"
      by blast
    moreover have "diagnostics (create_invoice_pdf a d) =
        [St_warning (''Logo file not found: '' @ LOGO_PATH)]"
      using r iw by simp
    ultimately show "(\<exists>doc. document (create_invoice_pdf a d) = Some doc \<and> doc \<noteq> [] \<and>
         Image LOGO_PATH \<notin> set doc \<and>
         document (create_invoice_pdf (a\<lparr>logo := Logo_ok\<rparr>) d) = Some (Image LOGO_PATH # doc)) \<and>
      diagnostics (create_invoice_pdf a d) =
        [St_warning (''Logo file not found: '' @ LOGO_PATH)]"
      by (rule conjI)
  qed
  moreover from success(1,2) have ?font by simp
  moreover have ?none
    using success(1,2,4) unread by (simp add: r)
  moreover have ?shown by (simp add: r)
  ultimately show ?thesis by (intro conjI)
qed
  have ?valid
  proof (intro impI)
    assume v: "regular_font a = None \<and> bold_font a = None \<and> logo a = Logo_missing \<and>
      0 < sum_list (map price (items d)) \<and> sum_list (map price (items d)) < 2 ^ 40 \<and>
      (\<forall>e \<in> set (payments d). 0 \<le> percentage e \<and> percentage e \<le> 100 \<and>
                                 0 \<le> amount e \<and> amount e < 2 ^ 40)"
    then have "snd (snd (payment_loop (sum_list (map price (items d))) (payments d))) = None"
      by (intro payment_loop_no_raise) blast+
    with v core show "\<exists>doc. document (create_invoice_pdf a d) = Some doc \<and> doc \<noteq> []"
      by blast
  qed
  with core show ?thesis by blast
qed

theorem asset_errors_witness:
  "(\<exists>doc. document (create_invoice_pdf assets_no_logo two_items) = Some doc \<and> doc \<noteq> [] \<and>
      Image LOGO_PATH \<notin> set doc) \<and>
   diagnostics (create_invoice_pdf assets_no_logo two_items) =
     [St_warning ''Logo file not found: ashi_logo.jpg''] \<and>
   document (create_invoice_pdf (assets_ok\<lparr>bold_font := Some ''missing file''\<rparr>) two_items) = None \<and>
   diagnostics (create_invoice_pdf (assets_ok\<lparr>bold_font := Some ''missing file''\<rparr>) two_items) \<noteq> []"
proof -
  have 1: "regular_font assets_no_logo = None \<and> bold_font assets_no_logo = None \<and>
           logo assets_no_logo = Logo_missing \<and>
           snd (snd (payment_loop (sum_list (map price (items two_items)))
             (payments two_items))) = None"
    using two_items_loop by (simp add: assets_no_logo_def)
  have 2: "regular_font (assets_ok\<lparr>bold_font := Some ''missing file''\<rparr>) \<noteq> None \<or>
           bold_font (assets_ok\<lparr>bold_font := Some ''missing file''\<rparr>) \<noteq> None"
    by simp
  from asset_errors [of assets_no_logo two_items] 1
  have "(\<exists>doc. document (create_invoice_pdf assets_no_logo two_items) = Some doc \<and> doc \<noteq> [] \<and>
           Image LOGO_PATH \<notin> set doc) \<and>
        diagnostics (create_invoice_pdf assets_no_logo two_items) =
          [St_warning (''Logo file not found: '' @ LOGO_PATH)]"
    by blast
  moreover from asset_errors [of "assets_ok\<lparr>bold_font := Some ''missing file''\<rparr>" two_items] 2
  have "document (create_invoice_pdf (assets_ok\<lparr>bold_font := Some ''missing file''\<rparr>) two_items) = None \<and>
        diagnostics (create_invoice_pdf (assets_ok\<lparr>bold_font := Some ''missing file''\<rparr>) two_items) \<noteq> []"
    by blast
  ultimately show ?thesis by (simp add: LOGO_PATH_def)
qed

subsection \<open>Payment derivation\<close>










subsection \<open>A base price of zero\<close>

lemma derive_percentage_zero_base:
  "amt \<noteq> 0 \<Longrightarrow> derive_percentage amt 0 = Inl ZeroDivisionError"
  by (simp add: derive_percentage_def true_div_def)

lemma derive_amount_zero_base:
  assumes "\<bar>perc\<bar> < 2 ^ 1000"
  shows "derive_amount perc 0 = Inr 0"
proof -
  from true_div_finite [of 100 perc] assms obtain m q where
    td: "true_div perc 100 = Inr (Finite m q)" by auto
  have "float_mul (Finite m q) (Finite 0 0) = Finite 0 0"
    by (simp add: round_to_float_zero)
  then show ?thesis
    by (simp add: derive_amount_def td float_mul_int_def float_of_int_def round_to_float_zero
          del: float_mul.simps)
qed

lemma derive_zero_base:
  assumes "\<bar>perc\<bar> < 2 ^ 1000"
  shows "derive perc amt 0 =
           (if perc = 0 \<and> amt \<noteq> 0 then Inl ZeroDivisionError
            else if amt = 0 \<and> perc \<noteq> 0 then Inr (perc, 0)
            else Inr (perc, amt))"
  using assms by (simp add: derive_def derive_percentage_zero_base derive_amount_zero_base)

text \<open>
  C10. The payment derivation divides by the sum of the item prices without a guard
  against zero. With a base price of 0 the quotient of a non-zero amount raises
  \<open>ZeroDivisionError\<close>, and so does the loop body on an entry with percentage 0 and a
  non-zero amount. When the item prices sum to 0 and the list of payments has such an
  entry, the call returns no document; when moreover the fonts load, the logo is not
  unreadable and the percentages are below \<open>2 ^ 1000\<close> in magnitude (so that no
  earlier entry overflows a float), the last message shown is the diagnostic of the
  caught \<open>ZeroDivisionError\<close>.
\<close>

theorem zero_price_division:
  "(amt \<noteq> 0 \<longrightarrow>
      true_div amt 0 = Inl ZeroDivisionError \<and>
      derive_percentage amt 0 = Inl ZeroDivisionError \<and>
      derive 0 amt 0 = Inl ZeroDivisionError) \<and>
   (sum_list (map price (items d)) = 0 \<and>
    (\<exists>e \<in> set (payments d). percentage e = 0 \<and> amount e \<noteq> 0) \<longrightarrow>
      document (create_invoice_pdf a d) = None \<and>
      (regular_font a = None \<and> bold_font a = None \<and> (\<forall>msg. logo a \<noteq> Logo_unreadable msg) \<and>
       (\<forall>e \<in> set (payments d). \<bar>percentage e\<bar> < 2 ^ 1000) \<longrightarrow>
         last (diagnostics (create_invoice_pdf a d)) =
           St_error_exc ''Failed to generate PDF'' (Raised ZeroDivisionError)))"
  (is "?entry \<and> ?call")
proof -
  have ?entry
    by (simp add: true_div_def derive_percentage_zero_base derive_def)
  moreover have ?call
  proof (intro impI)
    assume h: "sum_list (map price (items d)) = 0 \<and>
               (\<exists>e \<in> set (payments d). percentage e = 0 \<and> amount e \<noteq> 0)"
    then have zero: "sum_list (map price (items d)) = 0" by simp
    from h obtain e where e: "e \<in> set (payments d)" "percentage e = 0" "amount e \<noteq> 0"
      by blast
    then have raise: "derive (percentage e) (amount e) 0 = Inl ZeroDivisionError"
      by (simp add: derive_def derive_percentage_zero_base)
    have err: "snd (snd (payment_loop 0 (payments d))) \<noteq> None"
    proof
      assume "snd (snd (payment_loop 0 (payments d))) = None"
      then have "\<exists>r. derive (percentage e) (amount e) 0 = Inr r"
        using e(1) by (simp add: payment_loop_error_iff)
      with raise show False by simp
    qed
    have none: "document (create_invoice_pdf a d) = None"
    proof (cases rule: create_invoice_pdf_cases [where a = a and d = d])
      case (font msg)
      from create_invoice_pdf_font_failure [OF this] show ?thesis by simp
    next
      case (logo msg)
      from create_invoice_pdf_logo_failure [OF this] show ?thesis by simp
    next
      case (derivation img warn ps' rows e)
      from create_invoice_pdf_derivation_failure [OF this] show ?thesis by simp
    next
      case (success img warn ps' rows)
      with err zero show ?thesis by simp
    qed
    have diag: "last (diagnostics (create_invoice_pdf a d)) =
                  St_error_exc ''Failed to generate PDF'' (Raised ZeroDivisionError)"
      if ok: "regular_font a = None \<and> bold_font a = None \<and>
              (\<forall>msg. logo a \<noteq> Logo_unreadable msg) \<and>
              (\<forall>e \<in> set (payments d). \<bar>percentage e\<bar> < 2 ^ 1000)"
    proof -
      from h have "\<exists>e \<in> set (payments d). percentage e = 0 \<and> amount e \<noteq> 0" by simp
      then obtain pre e1 post where
        split: "payments d = pre @ e1 # post" and
        e1: "percentage e1 = 0 \<and> amount e1 \<noteq> 0" and
        pre: "\<forall>p \<in> set pre. \<not> (percentage p = 0 \<and> amount p \<noteq> 0)"
        using split_list_first_prop [of "payments d" "\<lambda>e. percentage e = 0 \<and> amount e \<noteq> 0"]
        by blast
      have "\<exists>r. derive (percentage p) (amount p) 0 = Inr r" if "p \<in> set pre" for p
      proof -
        from that split ok have "\<bar>percentage p\<bar> < 2 ^ 1000" by simp
        from derive_zero_base [OF this, of "amount p"] pre that show ?thesis by auto
      qed
      moreover from e1 have "derive (percentage e1) (amount e1) 0 = Inl ZeroDivisionError"
        by (simp add: derive_def derive_percentage_zero_base)
      ultimately have "snd (snd (payment_loop 0 (pre @ e1 # post))) = Some ZeroDivisionError"
        by (intro payment_loop_first_error) blast+
      then obtain ps' rows where
        pl: "payment_loop (sum_list (map price (items d))) (payments d) =
               (ps', rows, Some ZeroDivisionError)"
        unfolding zero split
        by (cases "payment_loop 0 (pre @ e1 # post)") auto
      from ok obtain img warn where dl: "draw_logo a = Inr (img, warn)"
        by (cases "logo a") (auto simp: draw_logo_def)
      from ok have "regular_font a = None" and "bold_font a = None" by simp_all
      from create_invoice_pdf_derivation_failure [OF this dl pl]
      show ?thesis by simp
    qed
    from none diag show "document (create_invoice_pdf a d) = None \<and>
      (regular_font a = None \<and> bold_font a = None \<and> (\<forall>msg. logo a \<noteq> Logo_unreadable msg) \<and>
       (\<forall>e \<in> set (payments d). \<bar>percentage e\<bar> < 2 ^ 1000) \<longrightarrow>
         last (diagnostics (create_invoice_pdf a d)) =
           St_error_exc ''Failed to generate PDF'' (Raised ZeroDivisionError))"
      by blast
  qed
  ultimately show ?thesis by (rule conjI)
qed

theorem zero_price_division_witness:
  "sum_list (map price (items zero_price)) = 0 \<and>
   validation_errors (payments zero_price) 0 = [] \<and>
   derive 0 5 0 = Inl ZeroDivisionError \<and>
   document (create_invoice_pdf assets_ok zero_price) = None \<and>
   last (diagnostics (create_invoice_pdf assets_ok zero_price)) =
     St_error_exc ''Failed to generate PDF'' (Raised ZeroDivisionError)"
proof -
  have 1: "sum_list (map price (items zero_price)) = 0 \<and>
           (\<exists>e \<in> set (payments zero_price). percentage e = 0 \<and> amount e \<noteq> 0)"
    by (simp add: zero_price_def two_items_def)
  have 2: "regular_font assets_ok = None \<and> bold_font assets_ok = None \<and>
           (\<forall>msg. logo assets_ok \<noteq> Logo_unreadable msg) \<and>
           (\<forall>e \<in> set (payments zero_price). \<bar>percentage e\<bar> < 2 ^ 1000)"
    by (simp add: assets_ok_def zero_price_def two_items_def)
  have 3: "validation_errors (payments zero_price) 0 = []"
    by (simp add: validation_errors_def zero_price_def two_items_def)
  from zero_price_division [of 5 zero_price assets_ok] 1 2 3 show ?thesis by simp
qed

end
